theory Spec2Isabelle
  imports Complex_Main "HOL-Library.Word" "HOL-Library.Multiset"
begin

section \<open>SymTable: a chained hash table with growth, and its list variant\<close>

text \<open>
  The development embeds the resizing hash table of \<^verbatim>\<open>symtablehash.c\<close> (the
  revision with the \<^verbatim>\<open>primes\<close> array and \<^verbatim>\<open>symtablehash_resizeHashTable\<close>) and the
  singly linked list of \<^verbatim>\<open>symtablelist.c\<close>.

  Conventions of the embedding.
  \<^item> A \<^verbatim>\<open>const char *\<close> key is the content of a C string: the characters before the
    terminating NUL, as a \<^typ>\<open>string\<close>. \<^verbatim>\<open>strcmp(a, b) == 0\<close> is equality of contents,
    \<^verbatim>\<open>strcpy\<close> into fresh storage yields an equal content.
  \<^item> A \<^verbatim>\<open>void *\<close> is an address, a natural number; \<^verbatim>\<open>NULL\<close> is address 0.
  \<^item> \<^verbatim>\<open>unsigned int\<close> is a 32-bit word. Whether plain \<^verbatim>\<open>char\<close> is signed is left to the
    C implementation; it is the parameter \<open>char_signed\<close> of every function that hashes.
  \<^item> \<^verbatim>\<open>size_t\<close> counters are natural numbers: each counted node occupies memory, so
    the counters stay far below the wrap-around of \<^verbatim>\<open>size_t\<close>.
  \<^item> A collision chain (nodes linked by \<^verbatim>\<open>psNextNode\<close>) is the list of its nodes from
    the head; the bucket array is the list of its chains.
  \<^item> The outcome of every \<^verbatim>\<open>malloc\<close>/\<^verbatim>\<open>calloc\<close> request of a call is an input of the
    model (\<open>True\<close>: the request succeeded).
  \<^item> A failed \<^verbatim>\<open>assert\<close> is the error value \<open>AssertionFailed\<close>. The assertions on the
    table and key pointers cannot fail here: the model has no null table and no null key.
\<close>

subsection \<open>Data\<close>

type_synonym ptr = nat

abbreviation (input) NULL :: ptr where
  "NULL \<equiv> 0"

type_synonym uint = "32 word"

datatype error = AssertionFailed

record SymTableNode =
  pcKey :: string
  pvValue :: ptr

record SymTable =
  buckets :: "SymTableNode list list"
  bucketCount :: nat
  nodeQuantity :: nat
  currentPrimeIndex :: nat

definition INITIAL_BUCKET_COUNT :: nat where
  "INITIAL_BUCKET_COUNT = 509"

definition primes :: "nat list" where
  "primes = [509, 1021, 2039, 4093, 8191, 16381, 32771, 65537, 131071, 262147]"

definition PRIME_COUNT :: nat where
  "PRIME_COUNT = length primes"

definition HASH_SHIFT_AMOUNT :: nat where
  "HASH_SHIFT_AMOUNT = 5"

subsection \<open>The hash function\<close>

text \<open>
  \<^verbatim>\<open>(unsigned int)(*pcKey)\<close>: the byte is read as a \<^verbatim>\<open>char\<close> (as a two's complement
  8-bit value when \<^verbatim>\<open>char\<close> is signed), and that value is converted to
  \<^verbatim>\<open>unsigned int\<close>, that is, reduced modulo \<open>2 ^ 32\<close>.
\<close>

definition char_to_uint :: "bool \<Rightarrow> char \<Rightarrow> uint" where
  "char_to_uint char_signed c =
     (if char_signed then word_of_int (sint (word_of_nat (of_char c) :: 8 word))
      else word_of_nat (of_char c))"

text \<open>The \<^verbatim>\<open>while (*pcKey != '\0')\<close> loop of \<^verbatim>\<open>symtablehash_hashFunction\<close>.\<close>

fun hash_loop :: "bool \<Rightarrow> string \<Rightarrow> uint \<Rightarrow> uint" where
  "hash_loop char_signed [] hash = hash"
| "hash_loop char_signed (c # key) hash =
     hash_loop char_signed key (push_bit HASH_SHIFT_AMOUNT hash + char_to_uint char_signed c)"

text \<open>
  \<^verbatim>\<open>return hash % bucketCount\<close>: the remainder is taken in \<^verbatim>\<open>size_t\<close> and is at most
  \<open>hash\<close>, so converting it back to \<^verbatim>\<open>unsigned int\<close> loses nothing. The C code divides
  by zero when the bucket count is 0; no table has that bucket count.
\<close>

definition symtablehash_hashFunction :: "bool \<Rightarrow> string \<Rightarrow> nat \<Rightarrow> nat" where
  "symtablehash_hashFunction char_signed key nbuckets =
     unat (hash_loop char_signed key 0) mod nbuckets"

text \<open>
  The reference fold of the specification, in its words: the accumulator starts at 0
  and each byte of the key replaces it by
  \<open>(accumulator shifted left by 5) + byte_value\<close>, in unsigned arithmetic modulo
  \<open>2 ^ 32\<close>. The value of a byte is the number from 0 to 255 it stores.
\<close>

definition byte_value :: "char \<Rightarrow> int" where
  "byte_value c = int (of_char c)"

definition hash_reference :: "string \<Rightarrow> int" where
  "hash_reference key = fold (\<lambda>c acc. (acc * 2 ^ 5 + byte_value c) mod 2 ^ 32) key 0"

text \<open>
  What the code adds for a byte instead: the value of the byte read as a \<^verbatim>\<open>char\<close>,
  which is \<open>byte_value c - 256\<close> for the bytes from \<open>0x80\<close> on where \<^verbatim>\<open>char\<close> is
  signed; and the fold of the specification over these values.
\<close>

definition char_value :: "bool \<Rightarrow> char \<Rightarrow> int" where
  "char_value char_signed c =
     (if char_signed \<and> 128 \<le> byte_value c then byte_value c - 256 else byte_value c)"

definition hash_char_fold :: "bool \<Rightarrow> string \<Rightarrow> int" where
  "hash_char_fold char_signed key =
     fold (\<lambda>c acc. (acc * 2 ^ 5 + char_value char_signed c) mod 2 ^ 32) key 0"

subsection \<open>Creation and length\<close>

text \<open>
  The outcome of the allocation requests of one \<^verbatim>\<open>SymTable_put\<close> call: the \<^verbatim>\<open>calloc\<close> of
  the new bucket array (asked only when the call resizes), the \<^verbatim>\<open>malloc\<close> of the node and
  the \<^verbatim>\<open>malloc\<close> of the key copy.
\<close>

record allocs =
  calloc_newBuckets :: bool
  malloc_psNewNode :: bool
  malloc_pcKey :: bool

text \<open>
  \<^verbatim>\<open>SymTable_new\<close>: \<open>None\<close> is the \<^verbatim>\<open>NULL\<close> it returns when the table or its bucket
  array cannot be allocated. \<^verbatim>\<open>calloc\<close> zeroes the array: every chain is empty.
\<close>

definition empty_table :: SymTable where
  "empty_table =
     \<lparr>buckets = replicate (primes ! 0) [], bucketCount = primes ! 0,
      nodeQuantity = 0, currentPrimeIndex = 0\<rparr>"

definition SymTable_new :: "bool \<Rightarrow> bool \<Rightarrow> SymTable option" where
  "SymTable_new malloc_oSymTable calloc_buckets =
     (if \<not> malloc_oSymTable then None
      else if \<not> calloc_buckets then None
      else Some empty_table)"

definition SymTable_getLength :: "SymTable \<Rightarrow> nat" where
  "SymTable_getLength oSymTable = nodeQuantity oSymTable"

subsection \<open>Growth\<close>

text \<open>
  The inner loop of \<^verbatim>\<open>symtablehash_resizeHashTable\<close>: every node of an old chain, from
  its head, is pushed on the front of the new chain its key hashes to.
\<close>

fun rehash_chain ::
  "bool \<Rightarrow> nat \<Rightarrow> SymTableNode list \<Rightarrow> SymTableNode list list \<Rightarrow> SymTableNode list list" where
  "rehash_chain char_signed newBucketCount [] newBuckets = newBuckets"
| "rehash_chain char_signed newBucketCount (psCurrentNode # psNextNode) newBuckets =
     (let newIndex = symtablehash_hashFunction char_signed (pcKey psCurrentNode) newBucketCount
      in rehash_chain char_signed newBucketCount psNextNode
           (newBuckets[newIndex := psCurrentNode # newBuckets ! newIndex]))"

text \<open>The outer loop \<^verbatim>\<open>while (i < oSymTable->bucketCount)\<close> over the old bucket array.\<close>

function rehash_buckets ::
  "bool \<Rightarrow> SymTable \<Rightarrow> nat \<Rightarrow> nat \<Rightarrow> SymTableNode list list \<Rightarrow> SymTableNode list list" where
  "rehash_buckets char_signed oSymTable newBucketCount i newBuckets =
     (if i < bucketCount oSymTable
      then rehash_buckets char_signed oSymTable newBucketCount (i + 1)
             (rehash_chain char_signed newBucketCount (buckets oSymTable ! i) newBuckets)
      else newBuckets)"
  by pat_completeness auto
termination
  by (relation "measure (\<lambda>(cs, t, n, i, bs). bucketCount t - i)") auto

declare rehash_buckets.simps [simp del]

definition symtablehash_resizeHashTable :: "bool \<Rightarrow> bool \<Rightarrow> SymTable \<Rightarrow> SymTable" where
  "symtablehash_resizeHashTable char_signed calloc_ok oSymTable =
     (let newPrimeIndex = currentPrimeIndex oSymTable + 1 in
      if newPrimeIndex \<ge> PRIME_COUNT then oSymTable
      else
        let newBucketCount = primes ! newPrimeIndex in
        if \<not> calloc_ok then oSymTable
        else oSymTable
               \<lparr>buckets := rehash_buckets char_signed oSymTable newBucketCount 0
                              (replicate newBucketCount []),
                bucketCount := newBucketCount,
                currentPrimeIndex := newPrimeIndex\<rparr>)"

text \<open>
  The test \<^verbatim>\<open>(double)nodeQuantity / bucketCount > LOAD_FACTOR_THRESHOLD\<close> of
  \<^verbatim>\<open>SymTable_put\<close>. Both counters convert to \<^verbatim>\<open>double\<close> exactly (they are below
  \<open>2 ^ 53\<close>), the quotient is rounded to the nearest \<^verbatim>\<open>double\<close>, and 0.75 is a
  \<^verbatim>\<open>double\<close>. A quotient above 3/4 of counters with at most 262147 buckets is above it by
  at least \<open>1 / (4 * 262147)\<close>, far more than the spacing \<open>2 ^ -53\<close> of the
  \<^verbatim>\<open>double\<close>s there, so the rounded comparison and the exact one agree.
\<close>

definition LOAD_FACTOR_THRESHOLD :: real where
  "LOAD_FACTOR_THRESHOLD = 0.75"

definition load_factor_exceeded :: "SymTable \<Rightarrow> bool" where
  "load_factor_exceeded oSymTable =
     (real (nodeQuantity oSymTable) / real (bucketCount oSymTable) > LOAD_FACTOR_THRESHOLD)"

subsection \<open>The operations\<close>

text \<open>The duplicate walk of \<^verbatim>\<open>SymTable_put\<close>: \<open>True\<close> when it meets the key.\<close>

fun put_duplicate :: "string \<Rightarrow> SymTableNode list \<Rightarrow> bool" where
  "put_duplicate key [] = False"
| "put_duplicate key (psCurrentNode # psNextNode) =
     (if key = pcKey psCurrentNode then True else put_duplicate key psNextNode)"

text \<open>
  The first step of \<^verbatim>\<open>SymTable_put\<close>, before the key is looked at: the table is
  resized when the load factor test holds.
\<close>

definition put_resize :: "bool \<Rightarrow> allocs \<Rightarrow> SymTable \<Rightarrow> SymTable" where
  "put_resize char_signed al oSymTable =
     (if load_factor_exceeded oSymTable
      then symtablehash_resizeHashTable char_signed (calloc_newBuckets al) oSymTable
      else oSymTable)"

definition SymTable_put ::
  "bool \<Rightarrow> allocs \<Rightarrow> SymTable \<Rightarrow> string \<Rightarrow> ptr \<Rightarrow> int \<times> SymTable" where
  "SymTable_put char_signed al oSymTable key val =
     (let t = put_resize char_signed al oSymTable;
          index = symtablehash_hashFunction char_signed key (bucketCount t)
      in if put_duplicate key (buckets t ! index) then (0, t)
         else if \<not> malloc_psNewNode al then (0, t)
         else if \<not> malloc_pcKey al then (0, t)
         else (1, t\<lparr>buckets := (buckets t)[index := \<lparr>pcKey = key, pvValue = val\<rparr> # buckets t ! index],
                     nodeQuantity := nodeQuantity t + 1\<rparr>))"

text \<open>
  The table after the last block of a successful \<^verbatim>\<open>SymTable_put\<close> (the new node
  heads the chain of its key, the counter is incremented), as a function of the table
  the block starts from; the lemmas on \<^verbatim>\<open>SymTable_put\<close> are stated with it.
\<close>

definition put_insert :: "bool \<Rightarrow> SymTable \<Rightarrow> string \<Rightarrow> ptr \<Rightarrow> SymTable" where
  "put_insert char_signed t key val =
     (let index = symtablehash_hashFunction char_signed key (bucketCount t)
      in t\<lparr>buckets := (buckets t)[index := \<lparr>pcKey = key, pvValue = val\<rparr> # buckets t ! index],
           nodeQuantity := nodeQuantity t + 1\<rparr>)"

text \<open>
  The walk of \<^verbatim>\<open>SymTable_replace\<close>: the old value and the chain with the value of the
  first node that carries the key overwritten, or \<open>None\<close> when no node carries it.
\<close>

fun replace_walk :: "string \<Rightarrow> ptr \<Rightarrow> SymTableNode list \<Rightarrow> (ptr \<times> SymTableNode list) option" where
  "replace_walk key val [] = None"
| "replace_walk key val (psCurrentNode # psNextNode) =
     (if key = pcKey psCurrentNode
      then Some (pvValue psCurrentNode, psCurrentNode\<lparr>pvValue := val\<rparr> # psNextNode)
      else (case replace_walk key val psNextNode of
              None \<Rightarrow> None
            | Some (oldValue, chain) \<Rightarrow> Some (oldValue, psCurrentNode # chain)))"

definition SymTable_replace ::
  "bool \<Rightarrow> SymTable \<Rightarrow> string \<Rightarrow> ptr \<Rightarrow> error + (ptr \<times> SymTable)" where
  "SymTable_replace char_signed oSymTable key val =
     (if val = NULL then Inl AssertionFailed
      else
        let index = symtablehash_hashFunction char_signed key (bucketCount oSymTable) in
        case replace_walk key val (buckets oSymTable ! index) of
          None \<Rightarrow> Inr (NULL, oSymTable)
        | Some (oldValue, chain) \<Rightarrow>
            Inr (oldValue, oSymTable\<lparr>buckets := (buckets oSymTable)[index := chain]\<rparr>))"

fun contains_walk :: "string \<Rightarrow> SymTableNode list \<Rightarrow> int" where
  "contains_walk key [] = 0"
| "contains_walk key (psCurrentNode # psNextNode) =
     (if key = pcKey psCurrentNode then 1 else contains_walk key psNextNode)"

definition SymTable_contains :: "bool \<Rightarrow> SymTable \<Rightarrow> string \<Rightarrow> int" where
  "SymTable_contains char_signed oSymTable key =
     (let index = symtablehash_hashFunction char_signed key (bucketCount oSymTable)
      in contains_walk key (buckets oSymTable ! index))"

fun get_walk :: "string \<Rightarrow> SymTableNode list \<Rightarrow> ptr" where
  "get_walk key [] = NULL"
| "get_walk key (psCurrentNode # psNextNode) =
     (if key = pcKey psCurrentNode then pvValue psCurrentNode else get_walk key psNextNode)"

definition SymTable_get :: "bool \<Rightarrow> SymTable \<Rightarrow> string \<Rightarrow> ptr" where
  "SymTable_get char_signed oSymTable key =
     (let index = symtablehash_hashFunction char_signed key (bucketCount oSymTable)
      in get_walk key (buckets oSymTable ! index))"

text \<open>
  The walk of \<^verbatim>\<open>SymTable_remove\<close>: the value of the first node that carries the key and
  the chain without that node (the head of the bucket when \<^verbatim>\<open>psPrevNode\<close> is
  \<^verbatim>\<open>NULL\<close>, the successor of \<^verbatim>\<open>psPrevNode\<close> otherwise), or \<open>None\<close>.
\<close>

fun remove_walk :: "string \<Rightarrow> SymTableNode list \<Rightarrow> (ptr \<times> SymTableNode list) option" where
  "remove_walk key [] = None"
| "remove_walk key (psCurrentNode # psNextNode) =
     (if key = pcKey psCurrentNode then Some (pvValue psCurrentNode, psNextNode)
      else (case remove_walk key psNextNode of
              None \<Rightarrow> None
            | Some (oldValue, chain) \<Rightarrow> Some (oldValue, psCurrentNode # chain)))"

text \<open>
  \<^verbatim>\<open>nodeQuantity--\<close> runs only after a node was found, so the counter of a table that
  counts its nodes is positive there.
\<close>

definition SymTable_remove :: "bool \<Rightarrow> SymTable \<Rightarrow> string \<Rightarrow> ptr \<times> SymTable" where
  "SymTable_remove char_signed oSymTable key =
     (let index = symtablehash_hashFunction char_signed key (bucketCount oSymTable) in
      case remove_walk key (buckets oSymTable ! index) of
        None \<Rightarrow> (NULL, oSymTable)
      | Some (oldValue, chain) \<Rightarrow>
          (oldValue, oSymTable\<lparr>buckets := (buckets oSymTable)[index := chain],
                                nodeQuantity := nodeQuantity oSymTable - 1\<rparr>))"

text \<open>
  \<^verbatim>\<open>SymTable_map\<close>. The callback works on the caller's side of the program, a state of
  any type \<open>'s\<close> that the table is no part of; \<open>pfApply key val extra\<close> is its effect
  on that state.
\<close>

fun map_chain ::
  "(string \<Rightarrow> ptr \<Rightarrow> ptr \<Rightarrow> 's \<Rightarrow> 's) \<Rightarrow> ptr \<Rightarrow> SymTableNode list \<Rightarrow> 's \<Rightarrow> 's" where
  "map_chain pfApply pvExtra [] s = s"
| "map_chain pfApply pvExtra (psCurrentNode # psNextNode) s =
     map_chain pfApply pvExtra psNextNode
       (pfApply (pcKey psCurrentNode) (pvValue psCurrentNode) pvExtra s)"

function map_buckets ::
  "SymTable \<Rightarrow> (string \<Rightarrow> ptr \<Rightarrow> ptr \<Rightarrow> 's \<Rightarrow> 's) \<Rightarrow> ptr \<Rightarrow> nat \<Rightarrow> 's \<Rightarrow> 's" where
  "map_buckets oSymTable pfApply pvExtra i s =
     (if i < bucketCount oSymTable
      then map_buckets oSymTable pfApply pvExtra (i + 1)
             (map_chain pfApply pvExtra (buckets oSymTable ! i) s)
      else s)"
  by pat_completeness auto
termination
  by (relation "measure (\<lambda>(t, f, e, i, s). bucketCount t - i)") auto

declare map_buckets.simps [simp del]

definition SymTable_map ::
  "SymTable \<Rightarrow> (string \<Rightarrow> ptr \<Rightarrow> ptr \<Rightarrow> 's \<Rightarrow> 's) \<Rightarrow> ptr \<Rightarrow> 's \<Rightarrow> error + 's" where
  "SymTable_map oSymTable pfApply pvExtra s =
     (if pvExtra = NULL then Inl AssertionFailed
      else Inr (map_buckets oSymTable pfApply pvExtra 0 s))"

subsection \<open>Sequences of operations\<close>

text \<open>
  A run of \<^verbatim>\<open>SymTable_put\<close> calls, each with its allocation outcomes, its key and its
  value: the list of the returned integers and the table after the last call.
\<close>

fun put_seq :: "bool \<Rightarrow> (allocs \<times> string \<times> ptr) list \<Rightarrow> SymTable \<Rightarrow> int list \<times> SymTable" where
  "put_seq char_signed [] t = ([], t)"
| "put_seq char_signed ((al, key, val) # calls) t =
     (let (r, t') = SymTable_put char_signed al t key val;
          (rs, t'') = put_seq char_signed calls t'
      in (r # rs, t''))"

text \<open>
  The calls that change a table. A failed assertion aborts the program: the run has
  no table afterwards. \<^verbatim>\<open>SymTable_map\<close> takes the table to read it only.
\<close>

datatype 's operation =
    Op_put allocs string ptr
  | Op_replace string ptr
  | Op_remove string
  | Op_map "string \<Rightarrow> ptr \<Rightarrow> ptr \<Rightarrow> 's \<Rightarrow> 's" ptr 's

fun apply_op :: "bool \<Rightarrow> 's operation \<Rightarrow> SymTable \<Rightarrow> error + SymTable" where
  "apply_op char_signed (Op_put al key val) t = Inr (snd (SymTable_put char_signed al t key val))"
| "apply_op char_signed (Op_replace key val) t =
     (case SymTable_replace char_signed t key val of
        Inl e \<Rightarrow> Inl e
      | Inr (oldValue, t') \<Rightarrow> Inr t')"
| "apply_op char_signed (Op_remove key) t = Inr (snd (SymTable_remove char_signed t key))"
| "apply_op char_signed (Op_map pfApply pvExtra s) t =
     (case SymTable_map t pfApply pvExtra s of
        Inl e \<Rightarrow> Inl e
      | Inr s' \<Rightarrow> Inr t)"

fun run :: "bool \<Rightarrow> 's operation list \<Rightarrow> SymTable \<Rightarrow> error + SymTable" where
  "run char_signed [] t = Inr t"
| "run char_signed (x # xs) t =
     (case apply_op char_signed x t of
        Inl e \<Rightarrow> Inl e
      | Inr t' \<Rightarrow> run char_signed xs t')"

text \<open>The assertions a call makes on its arguments: a run aborts at the first that fails.\<close>

fun op_asserts :: "'s operation \<Rightarrow> bool" where
  "op_asserts (Op_put al key val) = True"
| "op_asserts (Op_replace key val) = (val \<noteq> NULL)"
| "op_asserts (Op_remove key) = True"
| "op_asserts (Op_map pfApply pvExtra s) = (pvExtra \<noteq> NULL)"

subsection \<open>Structural invariants\<close>

text \<open>
  The capacity is the prime the saved index points at, the bucket array has that many
  chains, the counter counts the nodes of all chains, no two nodes carry the same key,
  and every node lies in the chain its key hashes to under the current capacity.
\<close>

definition chains_placed :: "bool \<Rightarrow> nat \<Rightarrow> SymTableNode list list \<Rightarrow> bool" where
  "chains_placed char_signed capacity bs =
     (\<forall>i \<in> {0..<length bs}. \<forall>n \<in> set (bs ! i).
        symtablehash_hashFunction char_signed (pcKey n) capacity = i)"

definition SymTable_inv :: "bool \<Rightarrow> SymTable \<Rightarrow> bool" where
  "SymTable_inv char_signed t =
     (currentPrimeIndex t < PRIME_COUNT \<and>
      bucketCount t = primes ! currentPrimeIndex t \<and>
      length (buckets t) = bucketCount t \<and>
      nodeQuantity t = length (concat (buckets t)) \<and>
      distinct (map pcKey (concat (buckets t))) \<and>
      chains_placed char_signed (bucketCount t) (buckets t))"

text \<open>
  The nodes reached by walking all chains, the keys they carry, and the value the
  first node with a key carries.
\<close>

definition table_nodes :: "SymTable \<Rightarrow> SymTableNode list" where
  "table_nodes t = concat (buckets t)"

definition table_keys :: "SymTable \<Rightarrow> string set" where
  "table_keys t = pcKey ` set (table_nodes t)"

definition table_lookup :: "SymTable \<Rightarrow> string \<Rightarrow> ptr option" where
  "table_lookup t = map_of (map (\<lambda>n. (pcKey n, pvValue n)) (table_nodes t))"

text \<open>
  A node with its value field overwritten when it carries the key, and left as it is
  otherwise: the only change \<^verbatim>\<open>SymTable_replace\<close> makes to a node.
\<close>

definition overwrite_value :: "string \<Rightarrow> ptr \<Rightarrow> SymTableNode \<Rightarrow> SymTableNode" where
  "overwrite_value key val n = (if pcKey n = key then n\<lparr>pvValue := val\<rparr> else n)"

subsection \<open>A callback that records its calls\<close>

definition record_call ::
  "string \<Rightarrow> ptr \<Rightarrow> ptr \<Rightarrow> (string \<times> ptr \<times> ptr) list \<Rightarrow> (string \<times> ptr \<times> ptr) list" where
  "record_call key val extra calls = calls @ [(key, val, extra)]"

subsection \<open>The list variant\<close>

text \<open>
  \<^verbatim>\<open>symtablelist.c\<close> (its first revision in the file, without assertions on the value
  and on the extra argument): one chain from \<^verbatim>\<open>psFirstNode\<close> and the counter.
\<close>

record SymTable_list =
  psFirstNode :: "SymTableNode list"
  nodeQuantity_list :: nat

definition SymTable_new_list :: "bool \<Rightarrow> SymTable_list option" where
  "SymTable_new_list malloc_oSymTable =
     (if \<not> malloc_oSymTable then None
      else Some \<lparr>psFirstNode = [], nodeQuantity_list = 0\<rparr>)"

text \<open>The walk of the list's \<^verbatim>\<open>SymTable_put\<close> is the duplicate walk over the one chain.\<close>

definition SymTable_put_list ::
  "bool \<Rightarrow> bool \<Rightarrow> SymTable_list \<Rightarrow> string \<Rightarrow> ptr \<Rightarrow> int \<times> SymTable_list" where
  "SymTable_put_list malloc_node malloc_key oSymTable key val =
     (if put_duplicate key (psFirstNode oSymTable) then (0, oSymTable)
      else if \<not> malloc_node then (0, oSymTable)
      else if \<not> malloc_key then (0, oSymTable)
      else (1, oSymTable\<lparr>nodeQuantity_list := nodeQuantity_list oSymTable + 1,
                          psFirstNode := \<lparr>pcKey = key, pvValue = val\<rparr> # psFirstNode oSymTable\<rparr>))"

definition SymTable_map_list ::
  "SymTable_list \<Rightarrow> (string \<Rightarrow> ptr \<Rightarrow> ptr \<Rightarrow> 's \<Rightarrow> 's) \<Rightarrow> ptr \<Rightarrow> 's \<Rightarrow> 's" where
  "SymTable_map_list oSymTable pfApply pvExtra s =
     map_chain pfApply pvExtra (psFirstNode oSymTable) s"

fun put_seq_list ::
  "(bool \<times> bool \<times> string \<times> ptr) list \<Rightarrow> SymTable_list \<Rightarrow> int list \<times> SymTable_list" where
  "put_seq_list [] t = ([], t)"
| "put_seq_list ((malloc_node, malloc_key, key, val) # calls) t =
     (let (r, t') = SymTable_put_list malloc_node malloc_key t key val;
          (rs, t'') = put_seq_list calls t'
      in (r # rs, t''))"

subsection \<open>Sample tables\<close>

text \<open>
  Tables filled through \<^verbatim>\<open>SymTable_put\<close> alone, every allocation succeeding: the keys
  are \<open>k\<close>, \<open>kk\<close>, \<open>kkk\<close>, ... and the value of the \<open>i\<close>-th key is \<open>i + 1\<close>.
\<close>

definition ok_allocs :: allocs where
  "ok_allocs = \<lparr>calloc_newBuckets = True, malloc_psNewNode = True, malloc_pcKey = True\<rparr>"

definition node_alloc_fails :: allocs where
  "node_alloc_fails = \<lparr>calloc_newBuckets = True, malloc_psNewNode = False, malloc_pcKey = True\<rparr>"

definition sample_key :: "nat \<Rightarrow> string" where
  "sample_key i = replicate (Suc i) (CHR ''k'')"

definition sample_calls :: "nat \<Rightarrow> (allocs \<times> string \<times> ptr) list" where
  "sample_calls n = map (\<lambda>i. (ok_allocs, sample_key i, Suc i)) [0..<n]"

definition sample_table :: "nat \<Rightarrow> SymTable" where
  "sample_table n = snd (put_seq False (sample_calls n) empty_table)"

subsection \<open>The hash function\<close>

lemma sint_byte:
  assumes "n < 256"
  shows "sint (word_of_nat n :: 8 word) = (if 128 \<le> n then int n - 256 else int n)"
proof -
  have u: "uint (word_of_nat n :: 8 word) = int n"
    using assms by (simp add: uint_nat unat_of_nat)
  have s: "sint (word_of_nat n :: 8 word) = (int n + 128) mod 256 - 128"
    by (simp add: sint_uint u signed_take_bit_eq_take_bit_shift take_bit_eq_mod)
  show ?thesis
  proof (cases "128 \<le> n")
    case True
    have "int n + 128 = int n - 128 + 256 * 1"
      by arith
    then have "(int n + 128) mod 256 = (int n - 128 + 256 * 1) mod 256"
      by (simp only:)
    also have "\<dots> = (int n - 128) mod 256"
      by (simp only: mod_mult_self2)
    also have "\<dots> = int n - 128"
      using True assms by (intro mod_pos_pos_trivial) simp_all
    finally show ?thesis
      using True s by simp
  next
    case False
    then have "(int n + 128) mod 256 = int n + 128"
      by (intro mod_pos_pos_trivial) simp_all
    then show ?thesis
      using False s by simp
  qed
qed

lemma char_to_uint_uint: "uint (char_to_uint cs c) = char_value cs c mod 2 ^ 32"
proof -
  have lt: "(of_char c :: nat) < 256" by simp
  have w: "(word_of_nat (of_char c) :: uint) = word_of_int (int (of_char c))" by simp
  have "uint (char_to_uint cs c) =
      (if cs \<and> 128 \<le> (of_char c :: nat) then int (of_char c) - 256 else int (of_char c)) mod 2 ^ 32"
    unfolding char_to_uint_def w using lt by (simp only: sint_byte uint_word_of_int split: if_splits) simp
  then show ?thesis
    by (simp add: char_value_def byte_value_def)
qed

lemma hash_step_uint:
  "uint (push_bit HASH_SHIFT_AMOUNT h + char_to_uint cs c) =
     (uint h * 2 ^ 5 + char_value cs c) mod 2 ^ 32"
  by (simp add: uint_word_ariths HASH_SHIFT_AMOUNT_def unsigned_push_bit_eq push_bit_eq_mult
      take_bit_eq_mod char_to_uint_uint mod_simps)

lemma hash_loop_fold:
  "uint (hash_loop cs key h) =
     fold (\<lambda>c acc. (acc * 2 ^ 5 + char_value cs c) mod 2 ^ 32) key (uint h)"
proof (induction key arbitrary: h)
  case Nil
  show ?case by simp
next
  case (Cons c key)
  show ?case
    using Cons [of "push_bit HASH_SHIFT_AMOUNT h + char_to_uint cs c"]
    by (simp add: hash_step_uint)
qed

lemma hash_loop_char_fold: "uint (hash_loop cs key 0) = hash_char_fold cs key"
  using hash_loop_fold [of cs key 0] by (simp add: hash_char_fold_def)

lemma hash_eq_char_fold:
  "symtablehash_hashFunction cs key b = nat (hash_char_fold cs key) mod b"
proof -
  have "unat (hash_loop cs key 0) = nat (uint (hash_loop cs key 0))"
    by simp
  then show ?thesis
    by (simp only: symtablehash_hashFunction_def hash_loop_char_fold)
qed

lemma char_fold_reference:
  assumes "\<not> cs \<or> (\<forall>c \<in> set key. byte_value c < 128)"
  shows "fold (\<lambda>c acc. (acc * 2 ^ 5 + char_value cs c) mod 2 ^ 32) key a =
         fold (\<lambda>c acc. (acc * 2 ^ 5 + byte_value c) mod 2 ^ 32) key a"
  using assms
proof (induction key arbitrary: a)
  case Nil
  show ?case by simp
next
  case (Cons c key)
  from Cons.prems have v: "char_value cs c = byte_value c"
    by (auto simp add: char_value_def)
  from Cons.prems have "\<not> cs \<or> (\<forall>c \<in> set key. byte_value c < 128)"
    by auto
  from Cons.IH [OF this] v show ?case by simp
qed

lemma hash_less: "0 < b \<Longrightarrow> symtablehash_hashFunction cs key b < b"
  by (simp add: symtablehash_hashFunction_def)

subsection \<open>The primes\<close>

lemma primes_sorted: "sorted_wrt (<) primes"
  by (simp add: primes_def)

lemma primes_pos: "i < PRIME_COUNT \<Longrightarrow> 0 < primes ! i"
proof -
  assume "i < PRIME_COUNT"
  then have "primes ! i \<in> set primes" by (simp add: PRIME_COUNT_def)
  then show ?thesis by (auto simp add: primes_def)
qed

lemma primes_less: "i < j \<Longrightarrow> j < PRIME_COUNT \<Longrightarrow> primes ! i < primes ! j"
  using primes_sorted by (simp add: sorted_wrt_nth_less PRIME_COUNT_def)

lemma primes_bound: "i < PRIME_COUNT \<Longrightarrow> primes ! i \<le> 262147"
proof -
  assume "i < PRIME_COUNT"
  then have "primes ! i \<in> set primes" by (simp add: PRIME_COUNT_def)
  then show ?thesis by (auto simp add: primes_def)
qed

lemma load_factor_exceeded_iff:
  "0 < bucketCount t \<Longrightarrow> load_factor_exceeded t \<longleftrightarrow> 3 * bucketCount t < 4 * nodeQuantity t"
proof -
  assume b: "0 < bucketCount t"
  have "(real (nodeQuantity t) / real (bucketCount t) > 3 / 4)
        \<longleftrightarrow> real (3 * bucketCount t) < real (4 * nodeQuantity t)"
    using b by (simp add: field_simps)
  also have "\<dots> \<longleftrightarrow> 3 * bucketCount t < 4 * nodeQuantity t"
    by (simp only: of_nat_less_iff)
  finally show ?thesis
    by (simp add: load_factor_exceeded_def LOAD_FACTOR_THRESHOLD_def)
qed

subsection \<open>The walks\<close>

lemma put_duplicate_iff: "put_duplicate key chain \<longleftrightarrow> key \<in> pcKey ` set chain"
  by (induction chain) auto

lemma contains_walk_eq: "contains_walk key chain = (if key \<in> pcKey ` set chain then 1 else 0)"
  by (induction chain) auto

lemma get_walk_eq:
  "get_walk key chain =
     (case map_of (map (\<lambda>n. (pcKey n, pvValue n)) chain) key of None \<Rightarrow> NULL | Some v \<Rightarrow> v)"
  by (induction chain) auto

lemma remove_walk_None: "remove_walk key chain = None \<longleftrightarrow> key \<notin> pcKey ` set chain"
  by (induction chain) (auto split: option.splits)

lemma remove_walk_Some:
  "remove_walk key chain = Some (v, chain') \<Longrightarrow>
     \<exists>pre n post. chain = pre @ n # post \<and> key \<notin> pcKey ` set pre \<and> pcKey n = key \<and>
        v = pvValue n \<and> chain' = pre @ post"
proof (induction chain arbitrary: chain')
  case Nil
  then show ?case by simp
next
  case (Cons a chain)
  show ?case
  proof (cases "key = pcKey a")
    case True
    with Cons.prems have "v = pvValue a" "chain' = chain" by auto
    with True show ?thesis by (intro exI [of _ "[]"] exI [of _ a] exI [of _ chain]) simp
  next
    case False
    with Cons.prems obtain c where r: "remove_walk key chain = Some (v, c)" and c: "chain' = a # c"
      by (auto split: option.splits)
    from Cons.IH [OF r] obtain pre n post where
      "chain = pre @ n # post" "key \<notin> pcKey ` set pre" "pcKey n = key" "v = pvValue n" "c = pre @ post"
      by blast
    with False c show ?thesis
      by (intro exI [of _ "a # pre"] exI [of _ n] exI [of _ post]) simp
  qed
qed

lemma replace_walk_None: "replace_walk key val chain = None \<longleftrightarrow> key \<notin> pcKey ` set chain"
  by (induction chain) (auto split: option.splits)

lemma replace_walk_Some:
  "replace_walk key val chain = Some (v, chain') \<Longrightarrow>
     \<exists>pre n post. chain = pre @ n # post \<and> key \<notin> pcKey ` set pre \<and> pcKey n = key \<and>
        v = pvValue n \<and> chain' = pre @ n\<lparr>pvValue := val\<rparr> # post"
proof (induction chain arbitrary: chain')
  case Nil
  then show ?case by simp
next
  case (Cons a chain)
  show ?case
  proof (cases "key = pcKey a")
    case True
    with Cons.prems have "v = pvValue a" "chain' = a\<lparr>pvValue := val\<rparr> # chain" by auto
    with True show ?thesis by (intro exI [of _ "[]"] exI [of _ a] exI [of _ chain]) simp
  next
    case False
    with Cons.prems obtain c where r: "replace_walk key val chain = Some (v, c)" and c: "chain' = a # c"
      by (auto split: option.splits)
    from Cons.IH [OF r] obtain pre n post where
      "chain = pre @ n # post" "key \<notin> pcKey ` set pre" "pcKey n = key" "v = pvValue n"
      "c = pre @ n\<lparr>pvValue := val\<rparr> # post"
      by blast
    with False c show ?thesis
      by (intro exI [of _ "a # pre"] exI [of _ n] exI [of _ post]) simp
  qed
qed

subsection \<open>Chains in the bucket array\<close>

lemma concat_nth_split:
  "i < length bs \<Longrightarrow> concat bs = concat (take i bs) @ bs ! i @ concat (drop (Suc i) bs)"
proof -
  assume "i < length bs"
  then have "bs = take i bs @ bs ! i # drop (Suc i) bs"
    by (rule id_take_nth_drop)
  then have "concat bs = concat (take i bs @ bs ! i # drop (Suc i) bs)"
    by simp
  then show ?thesis by simp
qed

lemma concat_update:
  "i < length bs \<Longrightarrow> concat (bs[i := c]) = concat (take i bs) @ c @ concat (drop (Suc i) bs)"
  by (simp add: upd_conv_take_nth_drop)

lemma mset_concat_update_Cons:
  "i < length bs \<Longrightarrow> mset (concat (bs[i := n # bs ! i])) = add_mset n (mset (concat bs))"
  using concat_nth_split [of i bs] by (simp add: concat_update)

lemma chain_subset: "i < length bs \<Longrightarrow> set (bs ! i) \<subseteq> set (concat bs)"
proof -
  assume "i < length bs"
  then have "bs ! i \<in> set bs" by (rule nth_mem)
  then show ?thesis by auto
qed

lemma chains_placedD:
  "chains_placed cs nb bs \<Longrightarrow> i < length bs \<Longrightarrow> n \<in> set (bs ! i) \<Longrightarrow>
     symtablehash_hashFunction cs (pcKey n) nb = i"
  by (simp add: chains_placed_def)

lemma chains_placed_node:
  assumes "chains_placed cs nb bs" and "n \<in> set (concat bs)"
  shows "symtablehash_hashFunction cs (pcKey n) nb < length bs \<and>
         n \<in> set (bs ! symtablehash_hashFunction cs (pcKey n) nb)"
proof -
  from assms(2) obtain c where "c \<in> set bs" "n \<in> set c" by auto
  then obtain i where i: "i < length bs" "n \<in> set (bs ! i)"
    by (auto simp add: in_set_conv_nth)
  with assms(1) have "symtablehash_hashFunction cs (pcKey n) nb = i"
    by (rule chains_placedD)
  with i show ?thesis by simp
qed

lemma chains_placed_replicate: "chains_placed cs nb (replicate m [])"
  by (simp add: chains_placed_def)

lemma chains_placed_push:
  assumes "chains_placed cs nb bs" and "symtablehash_hashFunction cs (pcKey n) nb = j"
  shows "chains_placed cs nb (bs[j := n # bs ! j])"
  unfolding chains_placed_def
proof (intro ballI)
  fix i m
  assume i: "i \<in> {0..<length (bs[j := n # bs ! j])}" and m: "m \<in> set (bs[j := n # bs ! j] ! i)"
  from i have il: "i < length bs" by simp
  show "symtablehash_hashFunction cs (pcKey m) nb = i"
  proof (cases "i = j")
    case True
    with m il have "m = n \<or> m \<in> set (bs ! j)" by simp
    then show ?thesis
      using assms True il by (auto dest: chains_placedD)
  next
    case False
    with m have "m \<in> set (bs ! i)" by simp
    with assms(1) il show ?thesis by (auto dest: chains_placedD)
  qed
qed

lemma chains_placed_sub:
  assumes "chains_placed cs nb bs" and "j < length bs" and "set c \<subseteq> set (bs ! j)"
  shows "chains_placed cs nb (bs[j := c])"
  unfolding chains_placed_def
proof (intro ballI)
  fix i m
  assume i: "i \<in> {0..<length (bs[j := c])}" and m: "m \<in> set (bs[j := c] ! i)"
  from i have il: "i < length bs" by simp
  show "symtablehash_hashFunction cs (pcKey m) nb = i"
  proof (cases "i = j")
    case True
    with m il assms(3) have "m \<in> set (bs ! i)" by auto
    with assms(1) il show ?thesis by (auto dest: chains_placedD)
  next
    case False
    with m have "m \<in> set (bs ! i)" by simp
    with assms(1) il show ?thesis by (auto dest: chains_placedD)
  qed
qed

subsection \<open>Rehashing\<close>

lemma rehash_chain_length: "length (rehash_chain cs nb chain bs) = length bs"
  by (induction chain arbitrary: bs) (simp_all add: Let_def)

lemma rehash_chain_mset:
  "0 < nb \<Longrightarrow> length bs = nb \<Longrightarrow>
     mset (concat (rehash_chain cs nb chain bs)) = mset chain + mset (concat bs)"
proof (induction chain arbitrary: bs)
  case Nil
  then show ?case by simp
next
  case (Cons n chain)
  let ?j = "symtablehash_hashFunction cs (pcKey n) nb"
  have j: "?j < length bs" using Cons.prems by (simp add: hash_less)
  have "mset (concat (rehash_chain cs nb chain (bs[?j := n # bs ! ?j]))) =
          mset chain + mset (concat (bs[?j := n # bs ! ?j]))"
    using Cons.prems by (intro Cons.IH) simp_all
  then show ?case
    using j by (simp add: Let_def mset_concat_update_Cons)
qed

lemma rehash_chain_placed:
  "chains_placed cs nb bs \<Longrightarrow> chains_placed cs nb (rehash_chain cs nb chain bs)"
proof (induction chain arbitrary: bs)
  case Nil
  then show ?case by simp
next
  case (Cons n chain)
  then show ?case
    by (simp add: Let_def chains_placed_push)
qed

lemma rehash_buckets_length:
  "length (rehash_buckets cs t nb i bs) = length bs"
proof (induction cs t nb i bs rule: rehash_buckets.induct)
  case (1 cs t nb i bs)
  then show ?case
    by (subst rehash_buckets.simps) (simp add: rehash_chain_length)
qed

lemma rehash_buckets_placed:
  "chains_placed cs nb bs \<Longrightarrow> chains_placed cs nb (rehash_buckets cs t nb i bs)"
proof (induction cs t nb i bs rule: rehash_buckets.induct)
  case (1 cs t nb i bs)
  then show ?case
    by (subst rehash_buckets.simps) (simp add: rehash_chain_placed)
qed

lemma rehash_buckets_mset:
  "0 < nb \<Longrightarrow> length bs = nb \<Longrightarrow> length (buckets t) = bucketCount t \<Longrightarrow>
     mset (concat (rehash_buckets cs t nb i bs)) =
       mset (concat (drop i (buckets t))) + mset (concat bs)"
proof (induction cs t nb i bs rule: rehash_buckets.induct)
  case (1 cs t nb i bs)
  show ?case
  proof (cases "i < bucketCount t")
    case True
    have d: "drop i (buckets t) = buckets t ! i # drop (Suc i) (buckets t)"
      using True "1.prems" by (simp add: Cons_nth_drop_Suc)
    have "mset (concat (rehash_buckets cs t nb (i + 1) (rehash_chain cs nb (buckets t ! i) bs))) =
            mset (concat (drop (i + 1) (buckets t))) +
            mset (concat (rehash_chain cs nb (buckets t ! i) bs))"
      using True "1.prems" by (intro "1.IH") (simp_all add: rehash_chain_length)
    then show ?thesis
      using True "1.prems" d
      by (subst rehash_buckets.simps) (simp add: rehash_chain_mset)
  next
    case False
    then show ?thesis
      using "1.prems" by (subst rehash_buckets.simps) simp
  qed
qed

subsection \<open>Consequences of the invariants\<close>

lemma inv_prime:
  "SymTable_inv cs t \<Longrightarrow>
     currentPrimeIndex t < PRIME_COUNT \<and> bucketCount t = primes ! currentPrimeIndex t"
  unfolding SymTable_inv_def by blast

lemma inv_length: "SymTable_inv cs t \<Longrightarrow> length (buckets t) = bucketCount t"
  unfolding SymTable_inv_def by blast

lemma inv_count: "SymTable_inv cs t \<Longrightarrow> nodeQuantity t = length (table_nodes t)"
  unfolding SymTable_inv_def table_nodes_def by blast

lemma inv_distinct: "SymTable_inv cs t \<Longrightarrow> distinct (map pcKey (table_nodes t))"
  unfolding SymTable_inv_def table_nodes_def by blast

lemma inv_placed: "SymTable_inv cs t \<Longrightarrow> chains_placed cs (bucketCount t) (buckets t)"
  unfolding SymTable_inv_def by blast

lemma inv_bucketCount_pos: "SymTable_inv cs t \<Longrightarrow> 0 < bucketCount t"
  by (simp add: SymTable_inv_def primes_pos)

lemma inv_index:
  "SymTable_inv cs t \<Longrightarrow> symtablehash_hashFunction cs key (bucketCount t) < length (buckets t)"
proof -
  assume i: "SymTable_inv cs t"
  then have "0 < bucketCount t" by (rule inv_bucketCount_pos)
  then have "symtablehash_hashFunction cs key (bucketCount t) < bucketCount t"
    by (rule hash_less)
  moreover have "length (buckets t) = bucketCount t"
    using i by (simp add: SymTable_inv_def)
  ultimately show ?thesis by simp
qed


lemma node_pair_in_set:
  "(key, v) \<in> set (map (\<lambda>n. (pcKey n, pvValue n)) xs) \<longleftrightarrow> \<lparr>pcKey = key, pvValue = v\<rparr> \<in> set xs"
proof
  assume "(key, v) \<in> set (map (\<lambda>n. (pcKey n, pvValue n)) xs)"
  then obtain n where n: "n \<in> set xs" "pcKey n = key" "pvValue n = v" by auto
  have "\<lparr>pcKey = key, pvValue = v\<rparr> = n"
    using n(2,3) by (cases n) simp
  with n(1) show "\<lparr>pcKey = key, pvValue = v\<rparr> \<in> set xs" by (simp only:)
next
  assume "\<lparr>pcKey = key, pvValue = v\<rparr> \<in> set xs"
  then have "(\<lambda>n. (pcKey n, pvValue n)) \<lparr>pcKey = key, pvValue = v\<rparr> \<in> (\<lambda>n. (pcKey n, pvValue n)) ` set xs"
    by (rule imageI)
  then show "(key, v) \<in> set (map (\<lambda>n. (pcKey n, pvValue n)) xs)" by simp
qed

lemma inv_empty_table: "SymTable_inv cs empty_table"
  by (simp add: SymTable_inv_def empty_table_def chains_placed_replicate PRIME_COUNT_def primes_def)

lemma node_keys_fst: "map fst (map (\<lambda>n. (pcKey n, pvValue n)) xs) = map pcKey xs"
  by simp

lemma table_lookup_dom: "dom (table_lookup t) = table_keys t"
  by (simp add: table_lookup_def table_keys_def dom_map_of_conv_image_fst image_image)

lemma table_lookup_Some_iff:
  assumes "distinct (map pcKey (table_nodes t))"
  shows "table_lookup t key = Some v \<longleftrightarrow> \<lparr>pcKey = key, pvValue = v\<rparr> \<in> set (table_nodes t)"
proof -
  have "distinct (map fst (map (\<lambda>n. (pcKey n, pvValue n)) (table_nodes t)))"
    using assms by (simp only: node_keys_fst)
  then have "table_lookup t key = Some v
      \<longleftrightarrow> (key, v) \<in> set (map (\<lambda>n. (pcKey n, pvValue n)) (table_nodes t))"
    unfolding table_lookup_def by (rule map_of_eq_Some_iff)
  also have "\<dots> \<longleftrightarrow> \<lparr>pcKey = key, pvValue = v\<rparr> \<in> set (table_nodes t)"
    by (rule node_pair_in_set)
  finally show ?thesis .
qed

lemma map_Some_ext:
  assumes "\<And>k v. m k = Some v \<longleftrightarrow> m' k = Some v"
  shows "m = m'"
proof
  fix k
  show "m k = m' k"
  proof (cases "m k")
    case None
    show ?thesis
    proof (cases "m' k")
      case N: None
      with None show ?thesis by simp
    next
      case (Some v)
      with assms [of k v] None show ?thesis by simp
    qed
  next
    case (Some v)
    with assms [of k v] show ?thesis by simp
  qed
qed

lemma table_lookup_cong:
  assumes "distinct (map pcKey (table_nodes t))" and "distinct (map pcKey (table_nodes t'))"
    and "set (table_nodes t) = set (table_nodes t')"
  shows "table_lookup t = table_lookup t'"
  by (rule map_Some_ext) (simp add: table_lookup_Some_iff assms)

lemma chain_keys_iff:
  assumes "SymTable_inv cs t"
  shows "key \<in> pcKey ` set (buckets t ! symtablehash_hashFunction cs key (bucketCount t))
           \<longleftrightarrow> key \<in> table_keys t"
proof
  assume "key \<in> pcKey ` set (buckets t ! symtablehash_hashFunction cs key (bucketCount t))"
  then show "key \<in> table_keys t"
    using chain_subset [OF inv_index [OF assms, of key]]
    by (auto simp add: table_keys_def table_nodes_def)
next
  assume "key \<in> table_keys t"
  then obtain n where n: "n \<in> set (concat (buckets t))" "pcKey n = key"
    by (auto simp add: table_keys_def table_nodes_def)
  have "chains_placed cs (bucketCount t) (buckets t)"
    using assms by (rule inv_placed)
  from chains_placed_node [OF this n(1)] n(2)
  show "key \<in> pcKey ` set (buckets t ! symtablehash_hashFunction cs key (bucketCount t))"
    by force
qed

lemma chain_lookup:
  assumes "SymTable_inv cs t"
  shows "map_of (map (\<lambda>n. (pcKey n, pvValue n))
           (buckets t ! symtablehash_hashFunction cs key (bucketCount t))) key
         = table_lookup t key"
proof -
  let ?c = "buckets t ! symtablehash_hashFunction cs key (bucketCount t)"
  let ?kv = "map (\<lambda>n. (pcKey n, pvValue n))"
  have sub: "set ?c \<subseteq> set (table_nodes t)"
    unfolding table_nodes_def by (rule chain_subset [OF inv_index [OF assms]])
  have d: "distinct (map pcKey (table_nodes t))"
    using assms by (simp add: SymTable_inv_def table_nodes_def)
  show ?thesis
  proof (cases "map_of (?kv ?c) key")
    case None
    then have "key \<notin> pcKey ` set ?c"
      by (simp add: map_of_eq_None_iff image_image)
    then have "key \<notin> table_keys t"
      by (simp add: chain_keys_iff [OF assms])
    then have "table_lookup t key = None"
      using table_lookup_dom [of t] by blast
    with None show ?thesis by simp
  next
    case (Some v)
    then have "(key, v) \<in> set (?kv ?c)" by (rule map_of_SomeD)
    then have "\<lparr>pcKey = key, pvValue = v\<rparr> \<in> set ?c" by (simp only: node_pair_in_set)
    with sub have "\<lparr>pcKey = key, pvValue = v\<rparr> \<in> set (table_nodes t)" by blast
    then have "table_lookup t key = Some v"
      by (simp add: table_lookup_Some_iff [OF d])
    with Some show ?thesis by simp
  qed
qed

lemma get_inv:
  "SymTable_inv cs t \<Longrightarrow>
     SymTable_get cs t key = (case table_lookup t key of None \<Rightarrow> NULL | Some v \<Rightarrow> v)"
  by (simp add: SymTable_get_def get_walk_eq chain_lookup)

lemma contains_inv:
  "SymTable_inv cs t \<Longrightarrow> SymTable_contains cs t key = (if key \<in> table_keys t then 1 else 0)"
  by (simp add: SymTable_contains_def contains_walk_eq chain_keys_iff)

subsection \<open>Growth keeps the table\<close>

lemma resize_cases:
  "symtablehash_resizeHashTable cs ok t =
     (if currentPrimeIndex t + 1 < PRIME_COUNT \<and> ok
      then t\<lparr>buckets := rehash_buckets cs t (primes ! (currentPrimeIndex t + 1)) 0
                          (replicate (primes ! (currentPrimeIndex t + 1)) []),
             bucketCount := primes ! (currentPrimeIndex t + 1),
             currentPrimeIndex := currentPrimeIndex t + 1\<rparr>
      else t)"
  by (simp add: symtablehash_resizeHashTable_def Let_def)

lemma resize_same:
  "\<not> (currentPrimeIndex t + 1 < PRIME_COUNT \<and> ok) \<Longrightarrow>
     symtablehash_resizeHashTable cs ok t = t"
  by (auto simp add: symtablehash_resizeHashTable_def Let_def)

lemma resize_grow:
  "currentPrimeIndex t + 1 < PRIME_COUNT \<Longrightarrow>
     symtablehash_resizeHashTable cs True t =
       t\<lparr>buckets := rehash_buckets cs t (primes ! (currentPrimeIndex t + 1)) 0
                          (replicate (primes ! (currentPrimeIndex t + 1)) []),
         bucketCount := primes ! (currentPrimeIndex t + 1),
         currentPrimeIndex := currentPrimeIndex t + 1\<rparr>"
  by (auto simp add: symtablehash_resizeHashTable_def Let_def)

lemma resize_nodeQuantity: "nodeQuantity (symtablehash_resizeHashTable cs ok t) = nodeQuantity t"
  by (simp add: symtablehash_resizeHashTable_def Let_def)

lemma resize_nodes:
  assumes "SymTable_inv cs t"
  shows "mset (table_nodes (symtablehash_resizeHashTable cs ok t)) = mset (table_nodes t)"
proof (cases "currentPrimeIndex t + 1 < PRIME_COUNT \<and> ok")
  case True
  then have g: "currentPrimeIndex t + 1 < PRIME_COUNT" and ok: "ok = True" by simp_all
  have p: "0 < primes ! (currentPrimeIndex t + 1)" using g by (rule primes_pos)
  have l: "length (buckets t) = bucketCount t" using assms by (simp add: SymTable_inv_def)
  have r: "length (replicate (primes ! (currentPrimeIndex t + 1)) ([] :: SymTableNode list))
             = primes ! (currentPrimeIndex t + 1)"
    by simp
  have "mset (concat (rehash_buckets cs t (primes ! (currentPrimeIndex t + 1)) 0
                (replicate (primes ! (currentPrimeIndex t + 1)) []))) =
          mset (concat (buckets t))"
    using rehash_buckets_mset [OF p r l, of cs 0] by simp
  then show ?thesis
    unfolding ok resize_grow [OF g] table_nodes_def by simp
next
  case False
  show ?thesis using resize_same [OF False, of cs] by simp
qed

lemma resize_inv:
  assumes "SymTable_inv cs t"
  shows "SymTable_inv cs (symtablehash_resizeHashTable cs ok t)"
proof (cases "currentPrimeIndex t + 1 < PRIME_COUNT \<and> ok")
  case True
  then have g: "currentPrimeIndex t + 1 < PRIME_COUNT" and ok: "ok = True" by simp_all
  let ?nb = "primes ! (currentPrimeIndex t + 1)"
  let ?bs = "rehash_buckets cs t ?nb 0 (replicate ?nb [])"
  have m: "mset (concat ?bs) = mset (concat (buckets t))"
    using resize_nodes [OF assms, of True] unfolding resize_grow [OF g] table_nodes_def by simp
  have e: "mset (map pcKey (concat ?bs)) = mset (map pcKey (concat (buckets t)))"
    by (simp only: mset_map m)
  have "distinct (map pcKey (concat (buckets t)))"
    using inv_distinct [OF assms] by (simp only: table_nodes_def)
  with mset_eq_imp_distinct_iff [OF e] have d: "distinct (map pcKey (concat ?bs))"
    by blast
  have len: "length (concat ?bs) = length (concat (buckets t))"
    using m by (rule mset_eq_length)
  have nq: "nodeQuantity t = length (concat (buckets t))"
    using inv_count [OF assms] by (simp only: table_nodes_def)
  have pl: "chains_placed cs ?nb ?bs"
    by (rule rehash_buckets_placed) (rule chains_placed_replicate)
  have lb: "length ?bs = ?nb"
    by (simp add: rehash_buckets_length)
  show ?thesis
    unfolding ok resize_grow [OF g] SymTable_inv_def
    using g d len nq pl lb by simp
next
  case False
  show ?thesis using assms resize_same [OF False, of cs] by simp
qed

lemma resize_lookup:
  assumes "SymTable_inv cs t"
  shows "table_lookup (symtablehash_resizeHashTable cs ok t) = table_lookup t"
proof (rule table_lookup_cong)
  show "distinct (map pcKey (table_nodes (symtablehash_resizeHashTable cs ok t)))"
    using resize_inv [OF assms, of ok] by (simp add: SymTable_inv_def table_nodes_def)
  show "distinct (map pcKey (table_nodes t))"
    using assms by (simp add: SymTable_inv_def table_nodes_def)
  show "set (table_nodes (symtablehash_resizeHashTable cs ok t)) = set (table_nodes t)"
    using resize_nodes [OF assms, of ok] by (rule mset_eq_setD)
qed

lemma resize_keys:
  "SymTable_inv cs t \<Longrightarrow> table_keys (symtablehash_resizeHashTable cs ok t) = table_keys t"
  using mset_eq_setD [OF resize_nodes [of cs t ok]] by (simp add: table_keys_def)

lemma put_resize_inv: "SymTable_inv cs t \<Longrightarrow> SymTable_inv cs (put_resize cs al t)"
  by (simp add: put_resize_def resize_inv)

lemma put_resize_nodes:
  "SymTable_inv cs t \<Longrightarrow> mset (table_nodes (put_resize cs al t)) = mset (table_nodes t)"
  by (simp add: put_resize_def resize_nodes)

lemma put_resize_lookup: "SymTable_inv cs t \<Longrightarrow> table_lookup (put_resize cs al t) = table_lookup t"
  by (simp add: put_resize_def resize_lookup)

lemma put_resize_keys: "SymTable_inv cs t \<Longrightarrow> table_keys (put_resize cs al t) = table_keys t"
  by (simp add: put_resize_def resize_keys)

lemma put_resize_nodeQuantity: "nodeQuantity (put_resize cs al t) = nodeQuantity t"
  by (simp add: put_resize_def resize_nodeQuantity)

subsection \<open>Put\<close>

lemma put_cases:
  "SymTable_put cs al t key val =
     (if put_duplicate key
           (buckets (put_resize cs al t) !
              symtablehash_hashFunction cs key (bucketCount (put_resize cs al t)))
         \<or> \<not> malloc_psNewNode al \<or> \<not> malloc_pcKey al
      then (0, put_resize cs al t)
      else (1, put_insert cs (put_resize cs al t) key val))"
  by (simp add: SymTable_put_def put_insert_def Let_def)

lemma put_duplicate_inv:
  "SymTable_inv cs t \<Longrightarrow>
     put_duplicate key (buckets t ! symtablehash_hashFunction cs key (bucketCount t))
       \<longleftrightarrow> key \<in> table_keys t"
  by (simp add: put_duplicate_iff chain_keys_iff)

lemma put_present:
  assumes "SymTable_inv cs t" and "key \<in> table_keys t"
  shows "SymTable_put cs al t key val = (0, put_resize cs al t)"
proof -
  have "key \<in> table_keys (put_resize cs al t)"
    using assms by (simp add: put_resize_keys)
  then have "put_duplicate key
           (buckets (put_resize cs al t) !
              symtablehash_hashFunction cs key (bucketCount (put_resize cs al t)))"
    using put_resize_inv [OF assms(1), of al] by (simp add: put_duplicate_inv)
  then show ?thesis by (simp add: put_cases)
qed

lemma put_alloc_fail:
  "\<not> (malloc_psNewNode al \<and> malloc_pcKey al) \<Longrightarrow>
     SymTable_put cs al t key val = (0, put_resize cs al t)"
  by (auto simp add: put_cases)

lemma put_absent:
  assumes "SymTable_inv cs t" and "key \<notin> table_keys t"
    and "malloc_psNewNode al" and "malloc_pcKey al"
  shows "SymTable_put cs al t key val = (1, put_insert cs (put_resize cs al t) key val)"
proof -
  have "key \<notin> table_keys (put_resize cs al t)"
    using assms by (simp add: put_resize_keys)
  then have "\<not> put_duplicate key
           (buckets (put_resize cs al t) !
              symtablehash_hashFunction cs key (bucketCount (put_resize cs al t)))"
    using put_resize_inv [OF assms(1), of al] by (simp add: put_duplicate_inv)
  then show ?thesis using assms(3,4) by (simp add: put_cases)
qed

lemma put_insert_fields:
  "bucketCount (put_insert cs t key val) = bucketCount t"
  "currentPrimeIndex (put_insert cs t key val) = currentPrimeIndex t"
  "nodeQuantity (put_insert cs t key val) = nodeQuantity t + 1"
  "length (buckets (put_insert cs t key val)) = length (buckets t)"
  by (simp_all add: put_insert_def Let_def)

lemma put_insert_nodes:
  assumes "SymTable_inv cs t"
  shows "mset (table_nodes (put_insert cs t key val)) =
           mset (\<lparr>pcKey = key, pvValue = val\<rparr> # table_nodes t)"
  using inv_index [OF assms, of key]
  by (simp add: put_insert_def Let_def table_nodes_def mset_concat_update_Cons)

lemma put_insert_keys:
  "SymTable_inv cs t \<Longrightarrow> table_keys (put_insert cs t key val) = insert key (table_keys t)"
  using mset_eq_setD [OF put_insert_nodes [of cs t key val]] by (simp add: table_keys_def)

lemma put_insert_inv:
  assumes "SymTable_inv cs t" and "key \<notin> table_keys t"
  shows "SymTable_inv cs (put_insert cs t key val)"
proof -
  let ?i = "symtablehash_hashFunction cs key (bucketCount t)"
  let ?n = "\<lparr>pcKey = key, pvValue = val\<rparr>"
  let ?bs = "(buckets t)[?i := ?n # buckets t ! ?i]"
  have i: "?i < length (buckets t)" using assms(1) by (rule inv_index)
  have b: "buckets (put_insert cs t key val) = ?bs"
    by (simp add: put_insert_def Let_def)
  have m: "mset (concat ?bs) = add_mset ?n (mset (concat (buckets t)))"
    using i by (rule mset_concat_update_Cons)
  have len: "length (concat ?bs) = Suc (length (concat (buckets t)))"
    using arg_cong [OF m, of size] by simp
  have "mset (map pcKey (concat ?bs)) = add_mset key (mset (map pcKey (concat (buckets t))))"
    by (simp only: mset_map m) simp
  also have "\<dots> = mset (key # map pcKey (concat (buckets t)))"
    by simp
  finally have e: "mset (map pcKey (concat ?bs)) = mset (key # map pcKey (concat (buckets t)))" .
  have "distinct (key # map pcKey (concat (buckets t)))"
    using inv_distinct [OF assms(1)] assms(2) by (simp add: table_keys_def table_nodes_def)
  with mset_eq_imp_distinct_iff [OF e] have d: "distinct (map pcKey (concat ?bs))"
    by blast
  have pl: "chains_placed cs (bucketCount t) ?bs"
    using inv_placed [OF assms(1)] by (rule chains_placed_push) simp
  have nq: "nodeQuantity t = length (concat (buckets t))"
    using inv_count [OF assms(1)] by (simp only: table_nodes_def)
  show ?thesis
    unfolding SymTable_inv_def put_insert_fields b
    using inv_prime [OF assms(1)] inv_length [OF assms(1)] d pl len nq by simp
qed

lemma put_insert_lookup:
  assumes "SymTable_inv cs t" and "key \<notin> table_keys t"
  shows "table_lookup (put_insert cs t key val) = (table_lookup t)(key \<mapsto> val)"
proof (rule map_Some_ext)
  fix k v
  have d: "distinct (map pcKey (table_nodes t))"
    using assms(1) by (rule inv_distinct)
  have d': "distinct (map pcKey (table_nodes (put_insert cs t key val)))"
    using put_insert_inv [OF assms] by (rule inv_distinct)
  have s: "set (table_nodes (put_insert cs t key val)) =
             insert \<lparr>pcKey = key, pvValue = val\<rparr> (set (table_nodes t))"
    using mset_eq_setD [OF put_insert_nodes [OF assms(1), of key val]] by simp
  have n: "table_lookup t key = None"
    using assms(2) table_lookup_dom [of t] by blast
  show "table_lookup (put_insert cs t key val) k = Some v
          \<longleftrightarrow> ((table_lookup t)(key \<mapsto> val)) k = Some v"
  proof (cases "k = key")
    case True
    have "table_lookup t key \<noteq> Some v" using n by simp
    then have "\<lparr>pcKey = key, pvValue = v\<rparr> \<notin> set (table_nodes t)"
      by (simp add: table_lookup_Some_iff [OF d])
    then show ?thesis
      using True by (auto simp add: table_lookup_Some_iff [OF d'] s)
  next
    case False
    then show ?thesis
      by (simp add: table_lookup_Some_iff [OF d'] table_lookup_Some_iff [OF d] s)
  qed
qed

lemma put_inv: "SymTable_inv cs t \<Longrightarrow> SymTable_inv cs (snd (SymTable_put cs al t key val))"
proof -
  assume i: "SymTable_inv cs t"
  then have r: "SymTable_inv cs (put_resize cs al t)" by (rule put_resize_inv)
  show ?thesis
  proof (cases "key \<in> table_keys t \<or> \<not> (malloc_psNewNode al \<and> malloc_pcKey al)")
    case True
    then have "SymTable_put cs al t key val = (0, put_resize cs al t)"
      using put_present [OF i, of key al val] put_alloc_fail [of al cs t key val] by blast
    with r show ?thesis by simp
  next
    case False
    then have "SymTable_put cs al t key val = (1, put_insert cs (put_resize cs al t) key val)"
      using put_absent [OF i, of key al val] by blast
    moreover have "key \<notin> table_keys (put_resize cs al t)"
      using False i by (simp add: put_resize_keys)
    ultimately show ?thesis
      using put_insert_inv [OF r] by simp
  qed
qed

subsection \<open>Remove and replace on a chain with distinct keys\<close>

lemma overwrite_value_key [simp]: "pcKey (overwrite_value key val n) = pcKey n"
  by (simp add: overwrite_value_def)

lemma overwrite_value_other: "key \<notin> pcKey ` set xs \<Longrightarrow> map (overwrite_value key val) xs = xs"
  by (induction xs) (auto simp add: overwrite_value_def)

lemma filter_other: "key \<notin> pcKey ` set xs \<Longrightarrow> filter (\<lambda>n. pcKey n \<noteq> key) xs = xs"
  by (induction xs) auto

lemma remove_walk_filter:
  "distinct (map pcKey chain) \<Longrightarrow>
     remove_walk key chain =
       (if key \<in> pcKey ` set chain
        then Some (get_walk key chain, filter (\<lambda>n. pcKey n \<noteq> key) chain)
        else None)"
proof (induction chain)
  case Nil
  show ?case by simp
next
  case (Cons a chain)
  show ?case
  proof (cases "key = pcKey a")
    case True
    with Cons.prems have "key \<notin> pcKey ` set chain" by auto
    then have "filter (\<lambda>n. pcKey n \<noteq> key) chain = chain" by (rule filter_other)
    with True show ?thesis by simp
  next
    case False
    with Cons show ?thesis by auto
  qed
qed

lemma replace_walk_map:
  "distinct (map pcKey chain) \<Longrightarrow>
     replace_walk key val chain =
       (if key \<in> pcKey ` set chain
        then Some (get_walk key chain, map (overwrite_value key val) chain)
        else None)"
proof (induction chain)
  case Nil
  show ?case by simp
next
  case (Cons a chain)
  show ?case
  proof (cases "key = pcKey a")
    case True
    with Cons.prems have "key \<notin> pcKey ` set chain" by auto
    then have "map (overwrite_value key val) chain = chain" by (rule overwrite_value_other)
    with True show ?thesis by (simp add: overwrite_value_def)
  next
    case False
    with Cons show ?thesis by (auto simp add: overwrite_value_def)
  qed
qed

lemma filter_key_length:
  "distinct (map pcKey xs) \<Longrightarrow> key \<in> pcKey ` set xs \<Longrightarrow>
     Suc (length (filter (\<lambda>n. pcKey n \<noteq> key) xs)) = length xs"
proof (induction xs)
  case Nil
  then show ?case by simp
next
  case (Cons a xs)
  show ?case
  proof (cases "key = pcKey a")
    case True
    with Cons.prems have "key \<notin> pcKey ` set xs" by auto
    then have "filter (\<lambda>n. pcKey n \<noteq> key) xs = xs" by (rule filter_other)
    with True show ?thesis by simp
  next
    case False
    with Cons show ?thesis by auto
  qed
qed

lemma map_of_filter_key:
  "map_of (map (\<lambda>n. (pcKey n, pvValue n)) (filter (\<lambda>n. pcKey n \<noteq> key) xs)) =
     (map_of (map (\<lambda>n. (pcKey n, pvValue n)) xs))(key := None)"
  by (induction xs) (auto simp add: fun_eq_iff)

lemma map_of_overwrite:
  "map_of (map (\<lambda>n. (pcKey n, pvValue n)) (map (overwrite_value key val) xs)) k =
     (if k = key then (if key \<in> pcKey ` set xs then Some val else None)
      else map_of (map (\<lambda>n. (pcKey n, pvValue n)) xs) k)"
  by (induction xs) (auto simp add: overwrite_value_def)

lemma chain_distinct:
  assumes "SymTable_inv cs t" and "i < length (buckets t)"
  shows "distinct (map pcKey (buckets t ! i))"
proof -
  have "distinct (map pcKey (concat (buckets t)))"
    using inv_distinct [OF assms(1)] by (simp only: table_nodes_def)
  then show ?thesis
    by (simp add: concat_nth_split [OF assms(2)])
qed

lemma other_chain_keys:
  assumes "SymTable_inv cs t" and "j < length (buckets t)"
    and "j \<noteq> symtablehash_hashFunction cs key (bucketCount t)"
  shows "key \<notin> pcKey ` set (buckets t ! j)"
proof
  assume "key \<in> pcKey ` set (buckets t ! j)"
  then obtain n where n: "n \<in> set (buckets t ! j)" "pcKey n = key" by auto
  from chains_placedD [OF inv_placed [OF assms(1)] assms(2) n(1)] n(2) assms(3)
  show False by simp
qed

lemma update_chain_map:
  assumes "SymTable_inv cs t"
    and "\<And>xs. key \<notin> pcKey ` set xs \<Longrightarrow> f xs = xs"
  shows "(buckets t)[symtablehash_hashFunction cs key (bucketCount t) :=
            f (buckets t ! symtablehash_hashFunction cs key (bucketCount t))]
         = map f (buckets t)"
proof (rule nth_equalityI)
  show "length ((buckets t)[symtablehash_hashFunction cs key (bucketCount t) :=
            f (buckets t ! symtablehash_hashFunction cs key (bucketCount t))])
        = length (map f (buckets t))"
    by simp
next
  fix j
  assume "j < length ((buckets t)[symtablehash_hashFunction cs key (bucketCount t) :=
            f (buckets t ! symtablehash_hashFunction cs key (bucketCount t))])"
  then have j: "j < length (buckets t)" by simp
  show "(buckets t)[symtablehash_hashFunction cs key (bucketCount t) :=
            f (buckets t ! symtablehash_hashFunction cs key (bucketCount t))] ! j
        = map f (buckets t) ! j"
  proof (cases "j = symtablehash_hashFunction cs key (bucketCount t)")
    case True
    with j show ?thesis by simp
  next
    case False
    have "f (buckets t ! j) = buckets t ! j"
      using other_chain_keys [OF assms(1) j False] by (rule assms(2))
    with False j show ?thesis by simp
  qed
qed

subsection \<open>Remove and replace on a table\<close>

lemma chains_placed_map:
  assumes "chains_placed cs nb bs" and "\<And>c. pcKey ` set (f c) \<subseteq> pcKey ` set c"
  shows "chains_placed cs nb (map f bs)"
  unfolding chains_placed_def
proof (intro ballI)
  fix i n
  assume i: "i \<in> {0..<length (map f bs)}" and n: "n \<in> set (map f bs ! i)"
  from i have il: "i < length bs" by simp
  with n have "pcKey n \<in> pcKey ` set (f (bs ! i))" by simp
  with assms(2) have "pcKey n \<in> pcKey ` set (bs ! i)" by blast
  then obtain m where m: "m \<in> set (bs ! i)" "pcKey m = pcKey n" by auto
  from chains_placedD [OF assms(1) il m(1)] m(2)
  show "symtablehash_hashFunction cs (pcKey n) nb = i" by simp
qed

lemma remove_closed:
  assumes "SymTable_inv cs t"
  shows "SymTable_remove cs t key =
           (if key \<in> table_keys t
            then (SymTable_get cs t key,
                  t\<lparr>buckets := map (filter (\<lambda>n. pcKey n \<noteq> key)) (buckets t),
                    nodeQuantity := nodeQuantity t - 1\<rparr>)
            else (NULL, t))"
proof -
  let ?i = "symtablehash_hashFunction cs key (bucketCount t)"
  have i: "?i < length (buckets t)" using assms by (rule inv_index)
  have w: "remove_walk key (buckets t ! ?i) =
       (if key \<in> table_keys t
        then Some (get_walk key (buckets t ! ?i), filter (\<lambda>n. pcKey n \<noteq> key) (buckets t ! ?i))
        else None)"
    using remove_walk_filter [OF chain_distinct [OF assms i], of key]
    by (simp only: chain_keys_iff [OF assms])
  have u: "(buckets t)[?i := filter (\<lambda>n. pcKey n \<noteq> key) (buckets t ! ?i)]
             = map (filter (\<lambda>n. pcKey n \<noteq> key)) (buckets t)"
    using assms by (rule update_chain_map) (rule filter_other)
  show ?thesis
    by (simp add: SymTable_remove_def SymTable_get_def Let_def w u)
qed

lemma replace_closed:
  assumes "SymTable_inv cs t" and "val \<noteq> NULL"
  shows "SymTable_replace cs t key val =
           (if key \<in> table_keys t
            then Inr (SymTable_get cs t key,
                      t\<lparr>buckets := map (map (overwrite_value key val)) (buckets t)\<rparr>)
            else Inr (NULL, t))"
proof -
  let ?i = "symtablehash_hashFunction cs key (bucketCount t)"
  have i: "?i < length (buckets t)" using assms(1) by (rule inv_index)
  have w: "replace_walk key val (buckets t ! ?i) =
       (if key \<in> table_keys t
        then Some (get_walk key (buckets t ! ?i), map (overwrite_value key val) (buckets t ! ?i))
        else None)"
    using replace_walk_map [OF chain_distinct [OF assms(1) i], of key val]
    by (simp only: chain_keys_iff [OF assms(1)])
  have u: "(buckets t)[?i := map (overwrite_value key val) (buckets t ! ?i)]
             = map (map (overwrite_value key val)) (buckets t)"
    using assms(1) by (rule update_chain_map) (rule overwrite_value_other)
  show ?thesis
    using assms(2) by (simp add: SymTable_replace_def SymTable_get_def Let_def w u)
qed

lemma removed_nodes:
  "table_nodes (t\<lparr>buckets := map (filter P) (buckets t), nodeQuantity := q\<rparr>)
     = filter P (table_nodes t)"
  by (simp add: table_nodes_def filter_concat)

lemma replaced_nodes:
  "table_nodes (t\<lparr>buckets := map (map f) (buckets t)\<rparr>) = map f (table_nodes t)"
  by (simp add: table_nodes_def map_concat)

lemma removed_inv:
  assumes "SymTable_inv cs t" and "key \<in> table_keys t"
  shows "SymTable_inv cs (t\<lparr>buckets := map (filter (\<lambda>n. pcKey n \<noteq> key)) (buckets t),
                              nodeQuantity := nodeQuantity t - 1\<rparr>)"
proof -
  let ?P = "\<lambda>n. pcKey n \<noteq> key"
  have d: "distinct (map pcKey (table_nodes t))" using assms(1) by (rule inv_distinct)
  have "Suc (length (filter ?P (table_nodes t))) = length (table_nodes t)"
    using d assms(2) unfolding table_keys_def by (rule filter_key_length)
  then have q: "nodeQuantity t - 1 = length (concat (map (filter ?P) (buckets t)))"
    using inv_count [OF assms(1)] by (simp add: table_nodes_def filter_concat)
  have d': "distinct (map pcKey (concat (map (filter ?P) (buckets t))))"
    using d by (simp add: table_nodes_def filter_concat [symmetric] distinct_map_filter)
  have pl: "chains_placed cs (bucketCount t) (map (filter ?P) (buckets t))"
    using inv_placed [OF assms(1)] by (rule chains_placed_map) auto
  show ?thesis
    unfolding SymTable_inv_def
    using inv_prime [OF assms(1)] inv_length [OF assms(1)] q d' pl by simp
qed

lemma replaced_inv:
  assumes "SymTable_inv cs t"
  shows "SymTable_inv cs (t\<lparr>buckets := map (map (overwrite_value key val)) (buckets t)\<rparr>)"
proof -
  let ?f = "overwrite_value key val"
  have k: "map pcKey (concat (map (map ?f) (buckets t))) = map pcKey (concat (buckets t))"
    by (simp add: map_concat [symmetric] comp_def)
  have d': "distinct (map pcKey (concat (map (map ?f) (buckets t))))"
    using inv_distinct [OF assms] by (simp only: k table_nodes_def)
  have "length (map pcKey (concat (map (map ?f) (buckets t)))) = length (map pcKey (concat (buckets t)))"
    by (simp only: k)
  then have q: "nodeQuantity t = length (concat (map (map ?f) (buckets t)))"
    using inv_count [OF assms] by (simp add: table_nodes_def)
  have pl: "chains_placed cs (bucketCount t) (map (map ?f) (buckets t))"
    using inv_placed [OF assms] by (rule chains_placed_map) (simp add: image_image)
  show ?thesis
    unfolding SymTable_inv_def
    using inv_prime [OF assms] inv_length [OF assms] q d' pl by simp
qed

lemma remove_inv: "SymTable_inv cs t \<Longrightarrow> SymTable_inv cs (snd (SymTable_remove cs t key))"
proof -
  assume i: "SymTable_inv cs t"
  show ?thesis
  proof (cases "key \<in> table_keys t")
    case True
    with removed_inv [OF i True] show ?thesis
      by (simp only: remove_closed [OF i] if_True snd_conv)
  next
    case False
    with i show ?thesis
      by (simp only: remove_closed [OF i] if_False snd_conv)
  qed
qed

lemma replace_inv:
  "SymTable_inv cs t \<Longrightarrow> SymTable_replace cs t key val = Inr (v, t') \<Longrightarrow> SymTable_inv cs t'"
proof -
  assume i: "SymTable_inv cs t" and r: "SymTable_replace cs t key val = Inr (v, t')"
  from r have "val \<noteq> NULL" by (cases "val = NULL") (simp_all add: SymTable_replace_def)
  from r show ?thesis
    unfolding replace_closed [OF i \<open>val \<noteq> NULL\<close>]
    using i replaced_inv [OF i, of key val] by (auto split: if_splits)
qed

lemma removed_lookup:
  "table_lookup (t\<lparr>buckets := map (filter (\<lambda>n. pcKey n \<noteq> key)) (buckets t), nodeQuantity := q\<rparr>)
     = (table_lookup t)(key := None)"
  unfolding table_lookup_def removed_nodes by (rule map_of_filter_key)

lemma replaced_lookup:
  assumes "key \<in> table_keys t"
  shows "table_lookup (t\<lparr>buckets := map (map (overwrite_value key val)) (buckets t)\<rparr>)
           = (table_lookup t)(key \<mapsto> val)"
proof
  fix k
  show "table_lookup (t\<lparr>buckets := map (map (overwrite_value key val)) (buckets t)\<rparr>) k
          = ((table_lookup t)(key \<mapsto> val)) k"
    unfolding table_lookup_def replaced_nodes map_of_overwrite
    using assms by (simp add: table_keys_def)
qed

subsection \<open>A successful put\<close>

lemma put_success:
  assumes "SymTable_inv cs t" and "key \<notin> table_keys t"
    and "malloc_psNewNode al" and "malloc_pcKey al"
  shows "fst (SymTable_put cs al t key val) = 1"
    and "SymTable_inv cs (snd (SymTable_put cs al t key val))"
    and "nodeQuantity (snd (SymTable_put cs al t key val)) = nodeQuantity t + 1"
    and "table_lookup (snd (SymTable_put cs al t key val)) = (table_lookup t)(key \<mapsto> val)"
    and "table_keys (snd (SymTable_put cs al t key val)) = insert key (table_keys t)"
    and "mset (table_nodes (snd (SymTable_put cs al t key val))) =
           mset (\<lparr>pcKey = key, pvValue = val\<rparr> # table_nodes t)"
proof -
  note p = put_absent [OF assms, of val]
  have r: "SymTable_inv cs (put_resize cs al t)"
    using assms(1) by (rule put_resize_inv)
  have k: "key \<notin> table_keys (put_resize cs al t)"
    using assms(1,2) by (simp add: put_resize_keys)
  show "fst (SymTable_put cs al t key val) = 1"
    by (simp add: p)
  show "SymTable_inv cs (snd (SymTable_put cs al t key val))"
    using put_insert_inv [OF r k, of val] by (simp add: p)
  show "nodeQuantity (snd (SymTable_put cs al t key val)) = nodeQuantity t + 1"
    by (simp add: p put_insert_fields put_resize_nodeQuantity)
  show "table_lookup (snd (SymTable_put cs al t key val)) = (table_lookup t)(key \<mapsto> val)"
    using put_insert_lookup [OF r k, of val] by (simp add: p put_resize_lookup [OF assms(1)])
  show "table_keys (snd (SymTable_put cs al t key val)) = insert key (table_keys t)"
    using put_insert_keys [OF r, of key val] by (simp add: p put_resize_keys [OF assms(1)])
  show "mset (table_nodes (snd (SymTable_put cs al t key val))) =
           mset (\<lparr>pcKey = key, pvValue = val\<rparr> # table_nodes t)"
    using put_insert_nodes [OF r, of key val] put_resize_nodes [OF assms(1), of al]
    by (simp add: p)
qed

lemma put_failure:
  assumes "SymTable_inv cs t"
    and "key \<in> table_keys t \<or> \<not> malloc_psNewNode al \<or> \<not> malloc_pcKey al"
  shows "SymTable_put cs al t key val = (0, put_resize cs al t)"
proof (cases "key \<in> table_keys t")
  case True
  with assms(1) show ?thesis by (rule put_present)
next
  case False
  with assms(2) have "\<not> (malloc_psNewNode al \<and> malloc_pcKey al)" by blast
  then show ?thesis by (rule put_alloc_fail)
qed

lemma put_resize_bucketCount:
  "bucketCount (put_resize cs al t) =
     (if load_factor_exceeded t \<and> currentPrimeIndex t + 1 < PRIME_COUNT \<and> calloc_newBuckets al
      then primes ! (currentPrimeIndex t + 1) else bucketCount t)"
  by (simp add: put_resize_def symtablehash_resizeHashTable_def Let_def)

lemma put_resize_unchanged:
  "\<not> (load_factor_exceeded t \<and> currentPrimeIndex t + 1 < PRIME_COUNT \<and> calloc_newBuckets al)
     \<Longrightarrow> put_resize cs al t = t"
  by (auto simp add: put_resize_def symtablehash_resizeHashTable_def Let_def)

lemma put_bucketCount:
  "bucketCount (snd (SymTable_put cs al t key val)) = bucketCount (put_resize cs al t)"
  by (simp add: put_cases put_insert_fields)

lemma put_currentPrimeIndex:
  "currentPrimeIndex (snd (SymTable_put cs al t key val)) = currentPrimeIndex (put_resize cs al t)"
  by (simp add: put_cases put_insert_fields)

subsection \<open>Runs of puts\<close>

lemma put_seq_snoc:
  "put_seq cs (calls @ [(al, key, val)]) t =
     (fst (put_seq cs calls t) @ [fst (SymTable_put cs al (snd (put_seq cs calls t)) key val)],
      snd (SymTable_put cs al (snd (put_seq cs calls t)) key val))"
proof (induction calls arbitrary: t)
  case Nil
  show ?case by (simp add: split_beta)
next
  case (Cons c calls)
  obtain al' key' val' where c: "c = (al', key', val')" by (cases c) auto
  show ?case
    unfolding c by (simp add: split_beta Let_def Cons.IH)
qed

lemma put_seq_inv: "SymTable_inv cs t \<Longrightarrow> SymTable_inv cs (snd (put_seq cs calls t))"
proof (induction calls arbitrary: t)
  case Nil
  then show ?case by simp
next
  case (Cons c calls)
  obtain al key val where c: "c = (al, key, val)" by (cases c) auto
  have "SymTable_inv cs (snd (SymTable_put cs al t key val))"
    using Cons.prems by (rule put_inv)
  from Cons.IH [OF this] show ?case
    unfolding c by (simp add: split_beta Let_def)
qed

lemma put_seq_success:
  assumes "SymTable_inv cs t"
    and "distinct (map (\<lambda>c. fst (snd c)) calls)"
    and "\<forall>c \<in> set calls. fst (snd c) \<notin> table_keys t"
    and "\<forall>c \<in> set calls. malloc_psNewNode (fst c) \<and> malloc_pcKey (fst c)"
  shows "fst (put_seq cs calls t) = replicate (length calls) 1
     \<and> nodeQuantity (snd (put_seq cs calls t)) = nodeQuantity t + length calls
     \<and> table_keys (snd (put_seq cs calls t)) = table_keys t \<union> (\<lambda>c. fst (snd c)) ` set calls
     \<and> (\<forall>c \<in> set calls. table_lookup (snd (put_seq cs calls t)) (fst (snd c)) = Some (snd (snd c)))
     \<and> (\<forall>k. k \<notin> (\<lambda>c. fst (snd c)) ` set calls \<longrightarrow>
           table_lookup (snd (put_seq cs calls t)) k = table_lookup t k)"
  using assms
proof (induction calls arbitrary: t)
  case Nil
  then show ?case by simp
next
  case (Cons c calls)
  obtain al key val where c: "c = (al, key, val)" by (cases c) auto
  let ?t1 = "snd (SymTable_put cs al t key val)"
  have k: "key \<notin> table_keys t" and a: "malloc_psNewNode al" "malloc_pcKey al"
    using Cons.prems(3,4) by (simp_all add: c)
  note s = put_success [OF Cons.prems(1) k a, of val]
  have kc: "key \<notin> (\<lambda>c. fst (snd c)) ` set calls"
    using Cons.prems(2) by (simp add: c)
  have 1: "SymTable_inv cs ?t1" by (rule s(2))
  have 2: "distinct (map (\<lambda>c. fst (snd c)) calls)"
    using Cons.prems(2) by simp
  have 3: "\<forall>c \<in> set calls. fst (snd c) \<notin> table_keys ?t1"
    using Cons.prems(3) kc by (auto simp add: s(5))
  have 4: "\<forall>c \<in> set calls. malloc_psNewNode (fst c) \<and> malloc_pcKey (fst c)"
    using Cons.prems(4) by simp
  note ih = Cons.IH [OF 1 2 3 4]
  have u: "put_seq cs (c # calls) t =
             (fst (SymTable_put cs al t key val) # fst (put_seq cs calls ?t1),
              snd (put_seq cs calls ?t1))"
    unfolding c by (simp add: split_beta Let_def)
  have l: "table_lookup (snd (put_seq cs calls ?t1)) key = Some val"
    using ih kc by (simp add: s(4))
  show ?case
    unfolding u using ih s(1) l by (auto simp add: s c)
qed

subsection \<open>The sample tables\<close>

lemma sample_key_eq [simp]: "sample_key i = sample_key j \<longleftrightarrow> i = j"
  by (simp add: sample_key_def)

lemma sample_calls_Suc:
  "sample_calls (Suc n) = sample_calls n @ [(ok_allocs, sample_key n, Suc n)]"
  by (simp add: sample_calls_def)

lemma sample_table_0: "sample_table 0 = empty_table"
  by (simp add: sample_table_def sample_calls_def)

lemma sample_table_Suc:
  "sample_table (Suc n) =
     snd (SymTable_put False ok_allocs (sample_table n) (sample_key n) (Suc n))"
  by (simp add: sample_table_def sample_calls_Suc put_seq_snoc)

lemma empty_table_fields:
  "bucketCount empty_table = 509" "nodeQuantity empty_table = 0"
  "currentPrimeIndex empty_table = 0" "table_keys empty_table = {}"
  by (simp_all add: empty_table_def primes_def table_keys_def table_nodes_def)

lemma sample_table_props:
  "n \<le> 382 \<Longrightarrow>
     SymTable_inv False (sample_table n)
     \<and> nodeQuantity (sample_table n) = n
     \<and> bucketCount (sample_table n) = 509
     \<and> currentPrimeIndex (sample_table n) = 0
     \<and> table_keys (sample_table n) = sample_key ` {..<n}
     \<and> (\<forall>i<n. table_lookup (sample_table n) (sample_key i) = Some (Suc i))"
proof (induction n)
  case 0
  show ?case
    by (simp add: sample_table_0 inv_empty_table empty_table_fields)
next
  case (Suc n)
  let ?t = "sample_table n"
  from Suc have ih: "SymTable_inv False ?t" "nodeQuantity ?t = n" "bucketCount ?t = 509"
    "currentPrimeIndex ?t = 0" "table_keys ?t = sample_key ` {..<n}"
    "\<forall>i<n. table_lookup ?t (sample_key i) = Some (Suc i)"
    by simp_all
  have n: "n \<le> 381" using Suc.prems by simp
  have "\<not> load_factor_exceeded ?t"
    using n by (simp add: load_factor_exceeded_iff ih)
  then have r: "put_resize False ok_allocs ?t = ?t"
    by (simp add: put_resize_unchanged)
  have k: "sample_key n \<notin> table_keys ?t"
    by (auto simp add: ih)
  have a: "malloc_psNewNode ok_allocs" "malloc_pcKey ok_allocs"
    by (simp_all add: ok_allocs_def)
  note s = put_success [OF ih(1) k a, of "Suc n"]
  have b: "bucketCount (sample_table (Suc n)) = 509"
    "currentPrimeIndex (sample_table (Suc n)) = 0"
    by (simp_all add: sample_table_Suc put_bucketCount put_currentPrimeIndex r ih)
  have l: "\<forall>i<Suc n. table_lookup (sample_table (Suc n)) (sample_key i) = Some (Suc i)"
    using ih(6) by (auto simp add: sample_table_Suc s(4) less_Suc_eq)
  have ks: "table_keys (sample_table (Suc n)) = sample_key ` {..<Suc n}"
    by (simp add: sample_table_Suc s(5) ih lessThan_Suc)
  show ?case
    using s(2,3) b l ks by (simp add: sample_table_Suc ih)
qed

subsection \<open>Runs of operations\<close>

lemma put_bucketCount_mono:
  assumes "SymTable_inv cs t"
  shows "bucketCount t \<le> bucketCount (snd (SymTable_put cs al t key val))"
proof (cases "load_factor_exceeded t \<and> currentPrimeIndex t + 1 < PRIME_COUNT \<and> calloc_newBuckets al")
  case True
  then have "primes ! currentPrimeIndex t < primes ! (currentPrimeIndex t + 1)"
    by (intro primes_less) simp_all
  then have "bucketCount t < primes ! (currentPrimeIndex t + 1)"
    using inv_prime [OF assms] by simp
  with True show ?thesis
    by (simp add: put_bucketCount put_resize_bucketCount)
next
  case False
  then show ?thesis
    by (simp add: put_bucketCount put_resize_unchanged)
qed

lemma remove_bucketCount:
  "SymTable_inv cs t \<Longrightarrow> bucketCount (snd (SymTable_remove cs t key)) = bucketCount t"
  by (simp add: remove_closed)

lemma replace_bucketCount:
  assumes "SymTable_inv cs t" and "SymTable_replace cs t key val = Inr (v, t')"
  shows "bucketCount t' = bucketCount t"
proof -
  from assms(2) have n: "val \<noteq> NULL"
    by (cases "val = NULL") (simp_all add: SymTable_replace_def)
  from assms(2) show ?thesis
    unfolding replace_closed [OF assms(1) n] by (auto split: if_splits)
qed

lemma apply_op_inv:
  assumes "SymTable_inv cs t" and "apply_op cs x t = Inr t'"
  shows "SymTable_inv cs t' \<and> bucketCount t \<le> bucketCount t'"
proof (cases x)
  case (Op_put al key val)
  with assms(2) have "t' = snd (SymTable_put cs al t key val)" by simp
  then show ?thesis
    using put_inv [OF assms(1), of al key val] put_bucketCount_mono [OF assms(1), of al key val]
    by simp
next
  case (Op_replace key val)
  with assms(2) obtain v where r: "SymTable_replace cs t key val = Inr (v, t')"
    by (auto split: sum.splits)
  from replace_inv [OF assms(1) r] replace_bucketCount [OF assms(1) r]
  show ?thesis by simp
next
  case (Op_remove key)
  with assms(2) have "t' = snd (SymTable_remove cs t key)" by simp
  then show ?thesis
    using remove_inv [OF assms(1), of key] remove_bucketCount [OF assms(1), of key]
    by simp
next
  case (Op_map pfApply pvExtra s)
  with assms(2) have "t' = t" by (auto split: sum.splits)
  with assms(1) show ?thesis by simp
qed

lemma run_inv:
  "SymTable_inv cs t \<Longrightarrow> run cs ops t = Inr t' \<Longrightarrow>
     SymTable_inv cs t' \<and> bucketCount t \<le> bucketCount t'"
proof (induction ops arbitrary: t)
  case Nil
  then show ?case by simp
next
  case (Cons x ops)
  from Cons.prems(2) obtain t1 where a: "apply_op cs x t = Inr t1" and r: "run cs ops t1 = Inr t'"
    by (auto split: sum.splits)
  from apply_op_inv [OF Cons.prems(1) a]
  have 1: "SymTable_inv cs t1" and 2: "bucketCount t \<le> bucketCount t1" by simp_all
  from Cons.IH [OF 1 r] 2 show ?case by simp
qed

lemma apply_op_ok: "op_asserts x \<Longrightarrow> \<exists>t'. apply_op cs x t = Inr t'"
proof (cases x)
  case (Op_replace key val)
  assume "op_asserts x"
  with Op_replace have "val \<noteq> NULL" by simp
  then have "\<exists>r. SymTable_replace cs t key val = Inr r"
    by (cases "replace_walk key val
          (buckets t ! symtablehash_hashFunction cs key (bucketCount t))")
      (auto simp add: SymTable_replace_def Let_def)
  then obtain r where "SymTable_replace cs t key val = Inr r" by blast
  with Op_replace show ?thesis by (cases r) simp
next
  case (Op_map pfApply pvExtra s)
  assume "op_asserts x"
  with Op_map show ?thesis by (simp add: SymTable_map_def)
qed simp_all

lemma run_ok: "\<forall>x \<in> set ops. op_asserts x \<Longrightarrow> \<exists>t'. run cs ops t = Inr t'"
proof (induction ops arbitrary: t)
  case Nil
  show ?case by simp
next
  case (Cons x ops)
  then have "op_asserts x" by simp
  from apply_op_ok [OF this, of cs t] obtain t1 where a: "apply_op cs x t = Inr t1" by blast
  from Cons.prems have "\<forall>x \<in> set ops. op_asserts x" by simp
  from Cons.IH [OF this, of t1] a show ?case by simp
qed

subsection \<open>Map\<close>

lemma map_chain_fold:
  "map_chain f e chain s = fold (\<lambda>n. f (pcKey n) (pvValue n) e) chain s"
  by (induction chain arbitrary: s) simp_all



lemma fold_record_call:
  "fold (\<lambda>n. record_call (pcKey n) (pvValue n) e) xs calls =
     calls @ map (\<lambda>n. (pcKey n, pvValue n, e)) xs"
  by (induction xs arbitrary: calls) (simp_all add: record_call_def)

subsection \<open>The list variant\<close>

lemma put_list_success:
  "fst (SymTable_put_list mn mk t key val) = 1 \<Longrightarrow>
     psFirstNode (snd (SymTable_put_list mn mk t key val)) =
       \<lparr>pcKey = key, pvValue = val\<rparr> # psFirstNode t
     \<and> key \<notin> pcKey ` set (psFirstNode t)"
  by (auto simp add: SymTable_put_list_def put_duplicate_iff split: if_splits)

lemma put_seq_list_success:
  "\<forall>r \<in> set (fst (put_seq_list calls t)). r = 1 \<Longrightarrow>
     psFirstNode (snd (put_seq_list calls t)) =
       rev (map (\<lambda>c. \<lparr>pcKey = fst (snd (snd c)), pvValue = snd (snd (snd c))\<rparr>) calls)
         @ psFirstNode t
     \<and> distinct (map (\<lambda>c. fst (snd (snd c))) calls)
     \<and> (\<forall>c \<in> set calls. fst (snd (snd c)) \<notin> pcKey ` set (psFirstNode t))"
proof (induction calls arbitrary: t)
  case Nil
  show ?case by simp
next
  case (Cons c calls)
  obtain mn mk key val where c: "c = (mn, mk, key, val)" by (cases c) auto
  let ?t1 = "snd (SymTable_put_list mn mk t key val)"
  have u: "put_seq_list (c # calls) t =
             (fst (SymTable_put_list mn mk t key val) # fst (put_seq_list calls ?t1),
              snd (put_seq_list calls ?t1))"
    unfolding c by (simp add: split_beta Let_def)
  from Cons.prems have f: "fst (SymTable_put_list mn mk t key val) = 1"
    and r: "\<forall>r \<in> set (fst (put_seq_list calls ?t1)). r = 1"
    unfolding u by simp_all
  note p = put_list_success [OF f]
  note ih = Cons.IH [OF r]
  from ih p show ?case
    unfolding u by (auto simp add: c)
qed

section \<open>The claims\<close>

subsection \<open>C1: puts with distinct keys\<close>

text \<open>
  Claim C1 says that every \<^verbatim>\<open>SymTable_put\<close> of a run with pairwise distinct keys on a
  fresh table returns 1. \<^verbatim>\<open>SymTable_put\<close> returns 0 when \<^verbatim>\<open>malloc\<close> fails for the node (or
  for the key copy): on the fresh table, the single put of key \<open>a\<close> in which the node
  cannot be allocated returns 0, and the table stays empty.
\<close>

theorem put_alloc_failure_counterexample:
  "SymTable_new True True = Some empty_table
   \<and> put_seq False [(node_alloc_fails, ''a'', 1)] empty_table = ([0], empty_table)
   \<and> SymTable_getLength empty_table = 0
   \<and> SymTable_contains False empty_table ''a'' = 0"
proof -
  have i: "SymTable_inv False empty_table" by (rule inv_empty_table)
  have "\<not> load_factor_exceeded empty_table"
    by (simp add: load_factor_exceeded_iff empty_table_fields)
  then have r: "put_resize False node_alloc_fails empty_table = empty_table"
    by (simp add: put_resize_unchanged)
  have "\<not> (malloc_psNewNode node_alloc_fails \<and> malloc_pcKey node_alloc_fails)"
    by (simp add: node_alloc_fails_def)
  from put_alloc_fail [OF this, of False empty_table "''a''" 1]
  have "SymTable_put False node_alloc_fails empty_table ''a'' 1 = (0, empty_table)"
    by (simp only: r)
  moreover have "SymTable_contains False empty_table ''a'' = 0"
    by (simp add: contains_inv [OF i] empty_table_fields)
  ultimately show ?thesis
    by (simp add: SymTable_new_def SymTable_getLength_def empty_table_fields)
qed

text \<open>
  Claim C1, amended. For every run of \<^verbatim>\<open>SymTable_put\<close> calls with pairwise distinct keys
  on a freshly created table in which the node and the key copy of every call are
  allocated (the allocation of a larger bucket array may fail or succeed), every put
  returns 1, \<^verbatim>\<open>SymTable_getLength\<close> afterwards equals the number of keys inserted, and
  for every inserted key \<^verbatim>\<open>SymTable_contains\<close> returns true and \<^verbatim>\<open>SymTable_get\<close> returns
  the value supplied at its insertion.
\<close>

theorem put_distinct_keys:
  assumes "SymTable_new True True = Some t0"
    and "distinct (map (\<lambda>c. fst (snd c)) calls)"
    and "\<forall>c \<in> set calls. malloc_psNewNode (fst c) \<and> malloc_pcKey (fst c)"
  shows "fst (put_seq cs calls t0) = replicate (length calls) 1
     \<and> SymTable_getLength (snd (put_seq cs calls t0)) = length calls
     \<and> (\<forall>c \<in> set calls.
           SymTable_contains cs (snd (put_seq cs calls t0)) (fst (snd c)) = 1
           \<and> SymTable_get cs (snd (put_seq cs calls t0)) (fst (snd c)) = snd (snd c))"
proof -
  from assms(1) have t0: "t0 = empty_table"
    by (simp add: SymTable_new_def)
  have i: "SymTable_inv cs t0" unfolding t0 by (rule inv_empty_table)
  have k: "\<forall>c \<in> set calls. fst (snd c) \<notin> table_keys t0"
    by (simp add: t0 empty_table_fields)
  note s = put_seq_success [OF i assms(2) k assms(3)]
  have i': "SymTable_inv cs (snd (put_seq cs calls t0))"
    using i by (rule put_seq_inv)
  from s have 1: "fst (put_seq cs calls t0) = replicate (length calls) 1"
    by blast
  from s have "nodeQuantity (snd (put_seq cs calls t0)) = nodeQuantity t0 + length calls"
    by blast
  then have 2: "SymTable_getLength (snd (put_seq cs calls t0)) = length calls"
    by (simp add: SymTable_getLength_def t0 empty_table_fields)
  from s have ks: "table_keys (snd (put_seq cs calls t0)) = table_keys t0 \<union> (\<lambda>c. fst (snd c)) ` set calls"
    by blast
  from s have l: "\<forall>c \<in> set calls.
       table_lookup (snd (put_seq cs calls t0)) (fst (snd c)) = Some (snd (snd c))"
    by blast
  have 3: "\<forall>c \<in> set calls.
           SymTable_contains cs (snd (put_seq cs calls t0)) (fst (snd c)) = 1
           \<and> SymTable_get cs (snd (put_seq cs calls t0)) (fst (snd c)) = snd (snd c)"
  proof
    fix c
    assume c: "c \<in> set calls"
    then have "fst (snd c) \<in> table_keys (snd (put_seq cs calls t0))"
      unfolding ks by blast
    then have "SymTable_contains cs (snd (put_seq cs calls t0)) (fst (snd c)) = 1"
      by (simp add: contains_inv [OF i'])
    moreover have "SymTable_get cs (snd (put_seq cs calls t0)) (fst (snd c)) = snd (snd c)"
      using l c by (simp add: get_inv [OF i'])
    ultimately show "SymTable_contains cs (snd (put_seq cs calls t0)) (fst (snd c)) = 1
           \<and> SymTable_get cs (snd (put_seq cs calls t0)) (fst (snd c)) = snd (snd c)"
      by (rule conjI)
  qed
  from 1 2 3 show ?thesis by (intro conjI)
qed

theorem put_distinct_keys_witness:
  "SymTable_new True True = Some empty_table
   \<and> fst (put_seq False [(ok_allocs, ''a'', 1), (ok_allocs, ''b'', 2)] empty_table) = [1, 1]
   \<and> SymTable_getLength
        (snd (put_seq False [(ok_allocs, ''a'', 1), (ok_allocs, ''b'', 2)] empty_table)) = 2
   \<and> SymTable_contains False
        (snd (put_seq False [(ok_allocs, ''a'', 1), (ok_allocs, ''b'', 2)] empty_table)) ''a'' = 1
   \<and> SymTable_get False
        (snd (put_seq False [(ok_allocs, ''a'', 1), (ok_allocs, ''b'', 2)] empty_table)) ''b'' = 2"
proof -
  define calls where "calls = [(ok_allocs, ''a'', 1 :: nat), (ok_allocs, ''b'', 2)]"
  have n: "SymTable_new True True = Some empty_table"
    by (simp add: SymTable_new_def)
  have d: "distinct (map (\<lambda>c. fst (snd c)) calls)"
    by (simp add: calls_def)
  have a: "\<forall>c \<in> set calls. malloc_psNewNode (fst c) \<and> malloc_pcKey (fst c)"
    by (simp add: calls_def ok_allocs_def)
  note th = put_distinct_keys [OF n d a, of False]
  from th have 1: "fst (put_seq False calls empty_table) = [1, 1]"
    by (simp add: calls_def)
  from th have 2: "SymTable_getLength (snd (put_seq False calls empty_table)) = 2"
    by (simp add: calls_def)
  from th have "\<forall>c \<in> set calls.
           SymTable_contains False (snd (put_seq False calls empty_table)) (fst (snd c)) = 1
           \<and> SymTable_get False (snd (put_seq False calls empty_table)) (fst (snd c)) = snd (snd c)"
    by blast
  then have 3: "SymTable_contains False (snd (put_seq False calls empty_table)) ''a'' = 1"
    and 4: "SymTable_get False (snd (put_seq False calls empty_table)) ''b'' = 2"
    unfolding calls_def [symmetric] by (simp_all add: calls_def)
  from n 1 2 3 4 show ?thesis
    unfolding calls_def by (intro conjI)
qed

subsection \<open>C2: growth is lossless\<close>



subsection \<open>C3: when put grows the table\<close>

text \<open>
  Claim C3 says that the table grows exactly when \<open>(count + 1) / capacity\<close> would exceed
  0.75 (and a larger prime remains). The code tests \<open>count / capacity\<close>, the load before
  the insertion. In the table of the 381 keys \<open>k\<close>, \<open>kk\<close>, ... the capacity is 509 and
  \<open>(381 + 1) / 509 > 0.75\<close>, a larger prime remains and every allocation succeeds, yet
  the put of a new key inserts it (returns 1) and leaves the capacity at 509.
\<close>

theorem put_load_test_counterexample:
  "nodeQuantity (sample_table 381) = 381
   \<and> bucketCount (sample_table 381) = 509
   \<and> LOAD_FACTOR_THRESHOLD
        < real (nodeQuantity (sample_table 381) + 1) / real (bucketCount (sample_table 381))
   \<and> currentPrimeIndex (sample_table 381) + 1 < PRIME_COUNT
   \<and> calloc_newBuckets ok_allocs
   \<and> SymTable_contains False (sample_table 381) (sample_key 381) = 0
   \<and> fst (SymTable_put False ok_allocs (sample_table 381) (sample_key 381) 382) = 1
   \<and> bucketCount (snd (SymTable_put False ok_allocs (sample_table 381) (sample_key 381) 382)) = 509"
proof -
  define T where "T = sample_table 381"
  have p: "SymTable_inv False T" "nodeQuantity T = 381" "bucketCount T = 509"
    "currentPrimeIndex T = 0" "table_keys T = sample_key ` {..<381}"
    unfolding T_def using sample_table_props [of 381] by simp_all
  have k: "sample_key 381 \<notin> table_keys T"
    unfolding p(5) by auto
  have c: "SymTable_contains False T (sample_key 381) = 0"
    using k by (simp add: contains_inv [OF p(1)])
  have e: "\<not> load_factor_exceeded T"
    by (simp add: load_factor_exceeded_iff p)
  have a: "malloc_psNewNode ok_allocs" "malloc_pcKey ok_allocs" "calloc_newBuckets ok_allocs"
    by (simp_all add: ok_allocs_def)
  have f: "fst (SymTable_put False ok_allocs T (sample_key 381) 382) = 1"
    using p(1) k a(1,2) by (rule put_success(1))
  have b: "bucketCount (snd (SymTable_put False ok_allocs T (sample_key 381) 382)) = 509"
    using e by (simp add: put_bucketCount put_resize_bucketCount p(3))
  have l: "LOAD_FACTOR_THRESHOLD < real (nodeQuantity T + 1) / real (bucketCount T)"
    by (simp add: LOAD_FACTOR_THRESHOLD_def p)
  have i: "currentPrimeIndex T + 1 < PRIME_COUNT"
    by (simp add: p PRIME_COUNT_def primes_def)
  from p(2,3) l i a(3) c f b show ?thesis
    unfolding T_def by (intro conjI)
qed

text \<open>
  Claim C3, amended. In every \<^verbatim>\<open>SymTable_put\<close> call on a table that satisfies the
  structural invariants, before the key is looked at, the table grows to the next
  prime capacity exactly when \<open>count / capacity\<close>, the load before the insertion, exceeds
  0.75, a larger prime remains in the sequence and the new bucket array is allocated;
  the next prime is larger than the capacity. If the test fails, the prime sequence is
  exhausted or the new bucket array cannot be allocated, the table is left unchanged by
  that step and the insertion proceeds at the current capacity: the call returns 1 and
  pushes the new node on the chain of its key, or returns 0 and leaves the table as it
  was. With or without growth the nodes of the table are kept, and the call returns 1
  exactly when the key was absent and the node and the key copy were allocated.
\<close>

theorem put_growth:
  assumes "SymTable_inv cs t"
  shows "bucketCount (snd (SymTable_put cs al t key val)) =
           (if load_factor_exceeded t \<and> currentPrimeIndex t + 1 < PRIME_COUNT \<and> calloc_newBuckets al
            then primes ! (currentPrimeIndex t + 1) else bucketCount t)
     \<and> load_factor_exceeded t = (3 * bucketCount t < 4 * nodeQuantity t)
     \<and> (load_factor_exceeded t \<and> currentPrimeIndex t + 1 < PRIME_COUNT \<and> calloc_newBuckets al \<longrightarrow>
           bucketCount t < primes ! (currentPrimeIndex t + 1)
           \<and> currentPrimeIndex (snd (SymTable_put cs al t key val)) = currentPrimeIndex t + 1)
     \<and> (\<not> (load_factor_exceeded t \<and> currentPrimeIndex t + 1 < PRIME_COUNT \<and> calloc_newBuckets al) \<longrightarrow>
           put_resize cs al t = t
           \<and> SymTable_put cs al t key val =
               (if SymTable_contains cs t key = 1 \<or> \<not> malloc_psNewNode al \<or> \<not> malloc_pcKey al
                then (0, t) else (1, put_insert cs t key val)))
     \<and> mset (table_nodes (put_resize cs al t)) = mset (table_nodes t)
     \<and> (fst (SymTable_put cs al t key val) = 1 \<longleftrightarrow>
           SymTable_contains cs t key = 0 \<and> malloc_psNewNode al \<and> malloc_pcKey al)"
proof -
  let ?G = "load_factor_exceeded t \<and> currentPrimeIndex t + 1 < PRIME_COUNT \<and> calloc_newBuckets al"
  have c: "SymTable_contains cs t key = (if key \<in> table_keys t then 1 else 0)"
    using assms by (rule contains_inv)
  have 1: "bucketCount (snd (SymTable_put cs al t key val)) =
           (if ?G then primes ! (currentPrimeIndex t + 1) else bucketCount t)"
    by (simp only: put_bucketCount put_resize_bucketCount)
  have 2: "load_factor_exceeded t = (3 * bucketCount t < 4 * nodeQuantity t)"
    using inv_bucketCount_pos [OF assms] by (rule load_factor_exceeded_iff)
  have 3: "?G \<longrightarrow> bucketCount t < primes ! (currentPrimeIndex t + 1)
           \<and> currentPrimeIndex (snd (SymTable_put cs al t key val)) = currentPrimeIndex t + 1"
  proof
    assume g: ?G
    then have "primes ! currentPrimeIndex t < primes ! (currentPrimeIndex t + 1)"
      by (intro primes_less) simp_all
    then have "bucketCount t < primes ! (currentPrimeIndex t + 1)"
      using inv_prime [OF assms] by simp
    moreover have "currentPrimeIndex (snd (SymTable_put cs al t key val)) = currentPrimeIndex t + 1"
      using g by (simp add: put_currentPrimeIndex put_resize_def symtablehash_resizeHashTable_def Let_def)
    ultimately show "bucketCount t < primes ! (currentPrimeIndex t + 1)
           \<and> currentPrimeIndex (snd (SymTable_put cs al t key val)) = currentPrimeIndex t + 1"
      by (rule conjI)
  qed
  have 4: "\<not> ?G \<longrightarrow> put_resize cs al t = t
           \<and> SymTable_put cs al t key val =
               (if SymTable_contains cs t key = 1 \<or> \<not> malloc_psNewNode al \<or> \<not> malloc_pcKey al
                then (0, t) else (1, put_insert cs t key val))"
  proof
    assume "\<not> ?G"
    then have r: "put_resize cs al t = t" by (rule put_resize_unchanged)
    have "SymTable_put cs al t key val =
               (if SymTable_contains cs t key = 1 \<or> \<not> malloc_psNewNode al \<or> \<not> malloc_pcKey al
                then (0, t) else (1, put_insert cs t key val))"
    proof (cases "key \<in> table_keys t \<or> \<not> malloc_psNewNode al \<or> \<not> malloc_pcKey al")
      case True
      from put_failure [OF assms True, of val] True show ?thesis
        by (auto simp add: r c)
    next
      case False
      then have "SymTable_put cs al t key val = (1, put_insert cs (put_resize cs al t) key val)"
        using put_absent [OF assms, of key al val] by blast
      with False show ?thesis by (simp add: r c)
    qed
    with r show "put_resize cs al t = t
           \<and> SymTable_put cs al t key val =
               (if SymTable_contains cs t key = 1 \<or> \<not> malloc_psNewNode al \<or> \<not> malloc_pcKey al
                then (0, t) else (1, put_insert cs t key val))"
      by (rule conjI)
  qed
  have 5: "mset (table_nodes (put_resize cs al t)) = mset (table_nodes t)"
    using assms by (rule put_resize_nodes)
  have 6: "fst (SymTable_put cs al t key val) = 1 \<longleftrightarrow>
           SymTable_contains cs t key = 0 \<and> malloc_psNewNode al \<and> malloc_pcKey al"
  proof (cases "key \<in> table_keys t \<or> \<not> malloc_psNewNode al \<or> \<not> malloc_pcKey al")
    case True
    from put_failure [OF assms True, of val] True show ?thesis
      by (auto simp add: c)
  next
    case False
    then have "fst (SymTable_put cs al t key val) = 1"
      using put_success(1) [OF assms, of key al val] by blast
    with False show ?thesis by (simp add: c)
  qed
  from 1 2 3 4 5 6 show ?thesis by (intro conjI)
qed

theorem put_growth_witness:
  "SymTable_inv False (sample_table 382)
   \<and> bucketCount (sample_table 382) = 509
   \<and> bucketCount (snd (SymTable_put False ok_allocs (sample_table 382) (sample_key 400) 1)) = 1021
   \<and> bucketCount (snd (SymTable_put False node_alloc_fails (sample_table 382) (sample_key 400) 1)) = 1021
   \<and> SymTable_inv False (sample_table 2)
   \<and> SymTable_put False ok_allocs (sample_table 2) (sample_key 5) 9
        = (1, put_insert False (sample_table 2) (sample_key 5) 9)
   \<and> bucketCount (snd (SymTable_put False ok_allocs (sample_table 2) (sample_key 5) 9)) = 509"
proof -
  define T where "T = sample_table 382"
  define U where "U = sample_table 2"
  have p: "SymTable_inv False T" "nodeQuantity T = 382" "bucketCount T = 509"
    "currentPrimeIndex T = 0"
    unfolding T_def using sample_table_props [of 382] by simp_all
  have q: "SymTable_inv False U" "nodeQuantity U = 2" "bucketCount U = 509"
    "currentPrimeIndex U = 0" "table_keys U = sample_key ` {..<2}"
    unfolding U_def using sample_table_props [of 2] by simp_all
  have e: "load_factor_exceeded T"
    by (simp add: load_factor_exceeded_iff p)
  have i: "currentPrimeIndex T + 1 < PRIME_COUNT" "primes ! (currentPrimeIndex T + 1) = 1021"
    by (simp_all add: p PRIME_COUNT_def primes_def)
  have a: "malloc_psNewNode ok_allocs" "malloc_pcKey ok_allocs" "calloc_newBuckets ok_allocs"
    "calloc_newBuckets node_alloc_fails"
    by (simp_all add: ok_allocs_def node_alloc_fails_def)
  have 1: "bucketCount (snd (SymTable_put False ok_allocs T (sample_key 400) 1)) = 1021"
    using put_growth [OF p(1), of ok_allocs "sample_key 400" 1] e i a by simp
  have 2: "bucketCount (snd (SymTable_put False node_alloc_fails T (sample_key 400) 1)) = 1021"
    using put_growth [OF p(1), of node_alloc_fails "sample_key 400" 1] e i a by simp
  have n: "\<not> load_factor_exceeded U"
    by (simp add: load_factor_exceeded_iff q)
  have c: "SymTable_contains False U (sample_key 5) = 0"
    by (auto simp add: contains_inv [OF q(1)] q(5))
  have 3: "SymTable_put False ok_allocs U (sample_key 5) 9 = (1, put_insert False U (sample_key 5) 9)"
    using put_growth [OF q(1), of ok_allocs "sample_key 5" 9] n c a by simp
  from put_growth [OF q(1), of ok_allocs "sample_key 5" 9]
  have "bucketCount (snd (SymTable_put False ok_allocs U (sample_key 5) 9)) =
           (if load_factor_exceeded U \<and> currentPrimeIndex U + 1 < PRIME_COUNT \<and> calloc_newBuckets ok_allocs
            then primes ! (currentPrimeIndex U + 1) else bucketCount U)"
    by (rule conjunct1)
  with n q(3) have 4: "bucketCount (snd (SymTable_put False ok_allocs U (sample_key 5) 9)) = 509"
    by simp
  from p(1,3) 1 2 q(1) 3 4 show ?thesis
    unfolding T_def U_def by (intro conjI)
qed

subsection \<open>C4: the structural invariants\<close>

text \<open>
  Claim C4. Every table reached from a freshly created table by a run of put, replace,
  remove and map calls (with any allocation outcomes, any keys and values; a run ends
  where an assertion fails) satisfies the structural invariants: no two nodes carry
  the same key; the stored count is the number of nodes reached by walking all
  chains; every node lies in the chain at index hash(key) mod the current capacity
  of a bucket array of that many chains; the capacity is one of the primes 509, 1021,
  ..., 262147, the one the saved index points at. The capacity never shrinks: it is at
  least 509 and every further run leaves it at least as large.
\<close>

theorem reachable_invariants:
  assumes "SymTable_new True True = Some t0" and "run cs ops t0 = Inr t"
  shows "distinct (map pcKey (table_nodes t))
     \<and> SymTable_getLength t = length (table_nodes t)
     \<and> length (buckets t) = bucketCount t
     \<and> chains_placed cs (bucketCount t) (buckets t)
     \<and> bucketCount t \<in> set primes
     \<and> bucketCount t = primes ! currentPrimeIndex t
     \<and> SymTable_inv cs t
     \<and> bucketCount t0 = 509 \<and> bucketCount t0 \<le> bucketCount t
     \<and> (\<forall>ops' t'. run cs ops' t = Inr t' \<longrightarrow> bucketCount t \<le> bucketCount t')"
proof -
  from assms(1) have t0: "t0 = empty_table"
    by (simp add: SymTable_new_def)
  have i0: "SymTable_inv cs t0" unfolding t0 by (rule inv_empty_table)
  from run_inv [OF i0 assms(2)]
  have i: "SymTable_inv cs t" and m: "bucketCount t0 \<le> bucketCount t" by simp_all
  have p: "currentPrimeIndex t < PRIME_COUNT" "bucketCount t = primes ! currentPrimeIndex t"
    using inv_prime [OF i] by simp_all
  then have s: "bucketCount t \<in> set primes"
    by (simp add: PRIME_COUNT_def)
  have g: "SymTable_getLength t = length (table_nodes t)"
    using inv_count [OF i] by (simp only: SymTable_getLength_def)
  have f: "\<forall>ops' t'. run cs ops' t = Inr t' \<longrightarrow> bucketCount t \<le> bucketCount t'"
    using run_inv [OF i] by blast
  have b: "bucketCount t0 = 509"
    by (simp add: t0 empty_table_fields)
  from inv_distinct [OF i] g inv_length [OF i] inv_placed [OF i] s p(2) i b m f
  show ?thesis by (intro conjI)
qed

theorem reachable_invariants_witness:
  "SymTable_new True True = Some empty_table
   \<and> (\<exists>t. run False [Op_put ok_allocs ''a'' 1, Op_put node_alloc_fails ''b'' 2,
                       Op_replace ''a'' 3, Op_map record_call 5 [], Op_remove ''a''] empty_table
            = Inr t
          \<and> SymTable_inv False t
          \<and> bucketCount t \<in> set primes
          \<and> SymTable_getLength t = length (table_nodes t))"
proof -
  define ops where "ops = [Op_put ok_allocs ''a'' 1, Op_put node_alloc_fails ''b'' 2,
      Op_replace ''a'' 3, Op_map record_call 5 ([] :: (string \<times> ptr \<times> ptr) list), Op_remove ''a'']"
  have n: "SymTable_new True True = Some empty_table"
    by (simp add: SymTable_new_def)
  have "\<forall>x \<in> set ops. op_asserts x"
    by (simp add: ops_def)
  from run_ok [OF this, of False empty_table]
  obtain t where r: "run False ops empty_table = Inr t" by blast
  from reachable_invariants [OF n r]
  have "SymTable_inv False t" "bucketCount t \<in> set primes"
    "SymTable_getLength t = length (table_nodes t)"
    by blast+
  with r have "\<exists>t. run False ops empty_table = Inr t
          \<and> SymTable_inv False t
          \<and> bucketCount t \<in> set primes
          \<and> SymTable_getLength t = length (table_nodes t)"
    by blast
  with n show ?thesis
    unfolding ops_def by (rule conjI)
qed

subsection \<open>C5: put with a key that is present\<close>

text \<open>
  Claim C5 says that \<^verbatim>\<open>SymTable_put\<close> with a key that is already bound leaves every
  component of the table state unchanged. \<^verbatim>\<open>SymTable_put\<close> tests the load factor and
  resizes before it looks for the key. In the table of the 382 keys \<open>k\<close>, \<open>kk\<close>, ...
  (capacity 509, load 382/509 > 0.75), putting the first key again returns 0, and
  the table it leaves has capacity 1021 and prime index 1.
\<close>

theorem put_duplicate_resizes_counterexample:
  "SymTable_contains False (sample_table 382) (sample_key 0) = 1
   \<and> bucketCount (sample_table 382) = 509
   \<and> currentPrimeIndex (sample_table 382) = 0
   \<and> fst (SymTable_put False ok_allocs (sample_table 382) (sample_key 0) 7) = 0
   \<and> bucketCount (snd (SymTable_put False ok_allocs (sample_table 382) (sample_key 0) 7)) = 1021
   \<and> currentPrimeIndex (snd (SymTable_put False ok_allocs (sample_table 382) (sample_key 0) 7)) = 1
   \<and> snd (SymTable_put False ok_allocs (sample_table 382) (sample_key 0) 7) \<noteq> sample_table 382"
proof -
  define T where "T = sample_table 382"
  have p: "SymTable_inv False T" "nodeQuantity T = 382" "bucketCount T = 509"
    "currentPrimeIndex T = 0" "table_keys T = sample_key ` {..<382}"
    unfolding T_def using sample_table_props [of 382] by simp_all
  have k: "sample_key 0 \<in> table_keys T"
    unfolding p(5) by (rule imageI) simp
  have c: "SymTable_contains False T (sample_key 0) = 1"
    using k by (simp add: contains_inv [OF p(1)])
  have e: "load_factor_exceeded T"
    by (simp add: load_factor_exceeded_iff p)
  have r: "SymTable_put False ok_allocs T (sample_key 0) 7 = (0, put_resize False ok_allocs T)"
    using p(1) k by (rule put_present)
  have b: "bucketCount (put_resize False ok_allocs T) = 1021"
    using e by (simp add: put_resize_bucketCount p PRIME_COUNT_def primes_def ok_allocs_def)
  have i: "currentPrimeIndex (put_resize False ok_allocs T) = 1"
    using e by (simp add: put_resize_def symtablehash_resizeHashTable_def Let_def p
        PRIME_COUNT_def primes_def ok_allocs_def)
  have n: "put_resize False ok_allocs T \<noteq> T"
    using b p(3) by auto
  show ?thesis
    unfolding T_def [symmetric] using c p(3,4) b i n by (simp add: r)
qed

text \<open>
  Claim C5, amended. For every table that satisfies the structural invariants and
  every key already bound in it, \<^verbatim>\<open>SymTable_put\<close> with that key and any value returns 0;
  the value \<^verbatim>\<open>SymTable_get\<close> returns is unchanged for that key and for every other key
  (no overwrite), and so are \<^verbatim>\<open>SymTable_contains\<close>, the length and the nodes of the
  table. The table it leaves is the table after the resizing step of the call: it is
  the table it was given, in every component, unless the load factor test holds, a
  larger prime remains and the new bucket array is allocated; in that case the capacity
  and the prime index advance and the nodes are relinked.
\<close>

theorem put_present_key:
  assumes "SymTable_inv cs t" and "SymTable_contains cs t key = 1"
  shows "fst (SymTable_put cs al t key val) = 0
     \<and> snd (SymTable_put cs al t key val) = put_resize cs al t
     \<and> (\<not> (load_factor_exceeded t \<and> currentPrimeIndex t + 1 < PRIME_COUNT \<and> calloc_newBuckets al)
          \<longrightarrow> snd (SymTable_put cs al t key val) = t)
     \<and> (\<forall>k. SymTable_get cs (snd (SymTable_put cs al t key val)) k = SymTable_get cs t k)
     \<and> (\<forall>k. SymTable_contains cs (snd (SymTable_put cs al t key val)) k = SymTable_contains cs t k)
     \<and> SymTable_getLength (snd (SymTable_put cs al t key val)) = SymTable_getLength t
     \<and> mset (table_nodes (snd (SymTable_put cs al t key val))) = mset (table_nodes t)
     \<and> SymTable_inv cs (snd (SymTable_put cs al t key val))"
proof -
  have k: "key \<in> table_keys t"
    using assms(2) by (simp add: contains_inv [OF assms(1)] split: if_splits)
  have r: "SymTable_put cs al t key val = (0, put_resize cs al t)"
    using assms(1) k by (rule put_present)
  have i': "SymTable_inv cs (put_resize cs al t)"
    using assms(1) by (rule put_resize_inv)
  have 1: "\<not> (load_factor_exceeded t \<and> currentPrimeIndex t + 1 < PRIME_COUNT \<and> calloc_newBuckets al)
          \<longrightarrow> put_resize cs al t = t"
    using put_resize_unchanged [of t al cs] by blast
  have 2: "\<forall>k. SymTable_get cs (put_resize cs al t) k = SymTable_get cs t k"
    by (simp add: get_inv [OF i'] get_inv [OF assms(1)] put_resize_lookup [OF assms(1)])
  have 3: "\<forall>k. SymTable_contains cs (put_resize cs al t) k = SymTable_contains cs t k"
    by (simp add: contains_inv [OF i'] contains_inv [OF assms(1)] put_resize_keys [OF assms(1)])
  have 4: "SymTable_getLength (put_resize cs al t) = SymTable_getLength t"
    by (simp add: SymTable_getLength_def put_resize_nodeQuantity)
  have 5: "mset (table_nodes (put_resize cs al t)) = mset (table_nodes t)"
    using assms(1) by (rule put_resize_nodes)
  show ?thesis
    unfolding r fst_conv snd_conv using 1 2 3 4 5 i' by (intro conjI) simp_all
qed

theorem put_present_key_witness:
  "SymTable_inv False (sample_table 2)
   \<and> SymTable_contains False (sample_table 2) (sample_key 0) = 1
   \<and> SymTable_put False ok_allocs (sample_table 2) (sample_key 0) 7 = (0, sample_table 2)
   \<and> SymTable_get False (snd (SymTable_put False ok_allocs (sample_table 2) (sample_key 0) 7))
        (sample_key 0) = 1"
proof -
  define T where "T = sample_table 2"
  have p: "SymTable_inv False T" "nodeQuantity T = 2" "bucketCount T = 509"
    "table_keys T = sample_key ` {..<2}" "table_lookup T (sample_key 0) = Some 1"
    unfolding T_def using sample_table_props [of 2] by simp_all
  have g: "SymTable_get False T (sample_key 0) = 1"
    by (simp add: get_inv [OF p(1)] p(5))
  have c: "SymTable_contains False T (sample_key 0) = 1"
    by (simp add: contains_inv [OF p(1)] p(4))
  have e: "\<not> load_factor_exceeded T"
    by (simp add: load_factor_exceeded_iff p)
  note th = put_present_key [OF p(1) c, of ok_allocs 7]
  from th have f: "fst (SymTable_put False ok_allocs T (sample_key 0) 7) = 0"
    by blast
  from th e have s: "snd (SymTable_put False ok_allocs T (sample_key 0) 7) = T"
    by blast
  from th have "SymTable_get False (snd (SymTable_put False ok_allocs T (sample_key 0) 7))
        (sample_key 0) = SymTable_get False T (sample_key 0)"
    by blast
  with g have g': "SymTable_get False (snd (SymTable_put False ok_allocs T (sample_key 0) 7))
        (sample_key 0) = 1"
    by (simp only:)
  from f s have "SymTable_put False ok_allocs T (sample_key 0) 7 = (0, T)"
    by (simp add: prod_eq_iff)
  with p(1) c g' show ?thesis
    unfolding T_def by (intro conjI)
qed

subsection \<open>C6: remove\<close>

text \<open>
  Claim C6. For every table that satisfies the structural invariants: when the key is
  present, \<^verbatim>\<open>SymTable_remove\<close> returns the value bound to it (the value \<^verbatim>\<open>SymTable_get\<close>
  returned before), afterwards \<^verbatim>\<open>SymTable_contains\<close> is false for the key and the length
  has decreased by exactly one, while every other key keeps its binding; when the key
  is absent, it returns \<^verbatim>\<open>NULL\<close> and the table is unchanged, so the length is too.
\<close>

theorem remove_present_absent:
  assumes "SymTable_inv cs t"
  shows "(SymTable_contains cs t key = 1 \<longrightarrow>
            fst (SymTable_remove cs t key) = SymTable_get cs t key
            \<and> SymTable_contains cs (snd (SymTable_remove cs t key)) key = 0
            \<and> SymTable_getLength (snd (SymTable_remove cs t key)) + 1 = SymTable_getLength t
            \<and> (\<forall>k. k \<noteq> key \<longrightarrow>
                  SymTable_get cs (snd (SymTable_remove cs t key)) k = SymTable_get cs t k
                  \<and> SymTable_contains cs (snd (SymTable_remove cs t key)) k =
                      SymTable_contains cs t k)
            \<and> SymTable_inv cs (snd (SymTable_remove cs t key)))
     \<and> (SymTable_contains cs t key \<noteq> 1 \<longrightarrow>
            SymTable_remove cs t key = (NULL, t)
            \<and> SymTable_getLength (snd (SymTable_remove cs t key)) = SymTable_getLength t)"
proof (cases "key \<in> table_keys t")
  case True
  define t' where "t' = t\<lparr>buckets := map (filter (\<lambda>n. pcKey n \<noteq> key)) (buckets t),
                            nodeQuantity := nodeQuantity t - 1\<rparr>"
  have r: "SymTable_remove cs t key = (SymTable_get cs t key, t')"
    unfolding t'_def using True by (simp only: remove_closed [OF assms] if_True)
  have i': "SymTable_inv cs t'"
    unfolding t'_def using assms True by (rule removed_inv)
  have l: "table_lookup t' = (table_lookup t)(key := None)"
    unfolding t'_def by (rule removed_lookup)
  have k: "table_keys t' = table_keys t - {key}"
    using arg_cong [OF l, of dom] by (simp add: table_lookup_dom)
  have d: "distinct (map pcKey (table_nodes t))" using assms by (rule inv_distinct)
  have n: "table_nodes t' = filter (\<lambda>n. pcKey n \<noteq> key) (table_nodes t)"
    unfolding t'_def by (rule removed_nodes)
  have "Suc (length (filter (\<lambda>n. pcKey n \<noteq> key) (table_nodes t))) = length (table_nodes t)"
    using d True unfolding table_keys_def by (rule filter_key_length)
  then have q: "nodeQuantity t' + 1 = nodeQuantity t"
    using inv_count [OF i'] inv_count [OF assms] by (simp add: n)
  have c: "SymTable_contains cs t key = 1"
    using True by (simp add: contains_inv [OF assms])
  have 1: "fst (SymTable_remove cs t key) = SymTable_get cs t key"
    by (simp only: r fst_conv)
  have 2: "SymTable_contains cs t' key = 0"
    by (simp add: contains_inv [OF i'] k)
  have 3: "SymTable_getLength t' + 1 = SymTable_getLength t"
    using q by (simp only: SymTable_getLength_def)
  have 4: "\<forall>k. k \<noteq> key \<longrightarrow>
                  SymTable_get cs t' k = SymTable_get cs t k
                  \<and> SymTable_contains cs t' k = SymTable_contains cs t k"
    by (simp add: get_inv [OF i'] get_inv [OF assms] contains_inv [OF i'] contains_inv [OF assms] l k)
  show ?thesis
    using 1 2 3 4 i' c by (simp only: r snd_conv simp_thms)
next
  case False
  have r: "SymTable_remove cs t key = (NULL, t)"
    using False by (simp only: remove_closed [OF assms] if_False)
  have c: "SymTable_contains cs t key \<noteq> 1"
    using False by (simp add: contains_inv [OF assms])
  show ?thesis
    using c by (simp add: r)
qed

theorem remove_present_absent_witness:
  "SymTable_inv False (sample_table 2)
   \<and> SymTable_contains False (sample_table 2) (sample_key 0) = 1
   \<and> fst (SymTable_remove False (sample_table 2) (sample_key 0)) = 1
   \<and> SymTable_contains False (snd (SymTable_remove False (sample_table 2) (sample_key 0)))
        (sample_key 0) = 0
   \<and> SymTable_getLength (snd (SymTable_remove False (sample_table 2) (sample_key 0))) = 1
   \<and> SymTable_contains False (sample_table 2) (sample_key 5) = 0
   \<and> SymTable_remove False (sample_table 2) (sample_key 5) = (NULL, sample_table 2)"
proof -
  have p: "SymTable_inv False (sample_table 2)" "nodeQuantity (sample_table 2) = 2"
    "table_keys (sample_table 2) = sample_key ` {..<2}"
    "table_lookup (sample_table 2) (sample_key 0) = Some 1"
    using sample_table_props [of 2] by simp_all
  have g: "SymTable_get False (sample_table 2) (sample_key 0) = 1"
    using p(4) by (simp add: get_inv [OF p(1)])
  have c: "SymTable_contains False (sample_table 2) (sample_key 0) = 1"
    using p(3) by (simp add: contains_inv [OF p(1)])
  have c5: "SymTable_contains False (sample_table 2) (sample_key 5) = 0"
    using p(3) by (auto simp add: contains_inv [OF p(1)])
  have l: "SymTable_getLength (sample_table 2) = 2"
    by (simp add: SymTable_getLength_def p(2))
  show ?thesis
    using remove_present_absent [OF p(1), of "sample_key 0"]
      remove_present_absent [OF p(1), of "sample_key 5"] p(1) g c c5 l
    by simp
qed

subsection \<open>C7: replace\<close>

text \<open>
  Claim C7 says that \<^verbatim>\<open>SymTable_replace\<close> on a present key returns the prior value and
  that on an absent key it returns \<^verbatim>\<open>NULL\<close> and leaves the table unchanged, for every
  call. The function starts with \<^verbatim>\<open>assert(pvValue != NULL)\<close>: with \<^verbatim>\<open>NULL\<close> as the new
  value it aborts, for a present key (here \<open>k\<close>, bound to 1 in a table of one binding)
  as for an absent one (here \<open>kkkkkk\<close>), and returns nothing.
\<close>

theorem replace_null_counterexample:
  "SymTable_contains False (sample_table 1) (sample_key 0) = 1
   \<and> SymTable_get False (sample_table 1) (sample_key 0) = 1
   \<and> SymTable_replace False (sample_table 1) (sample_key 0) NULL = Inl AssertionFailed
   \<and> SymTable_contains False (sample_table 1) (sample_key 5) = 0
   \<and> SymTable_replace False (sample_table 1) (sample_key 5) NULL = Inl AssertionFailed"
proof -
  have p: "SymTable_inv False (sample_table 1)"
    "table_keys (sample_table 1) = sample_key ` {..<1}"
    "table_lookup (sample_table 1) (sample_key 0) = Some 1"
    using sample_table_props [of 1] by simp_all
  have "SymTable_get False (sample_table 1) (sample_key 0) = 1"
    by (simp only: get_inv [OF p(1)] p(3) option.simps)
  moreover have "SymTable_contains False (sample_table 1) (sample_key 0) = 1"
    by (simp only: contains_inv [OF p(1)] p(2)) simp
  moreover have "SymTable_contains False (sample_table 1) (sample_key 5) = 0"
    by (simp only: contains_inv [OF p(1)] p(2)) auto
  ultimately show ?thesis
    by (simp add: SymTable_replace_def)
qed

text \<open>
  Claim C7, amended. For every table that satisfies the structural invariants and
  every new value other than \<^verbatim>\<open>NULL\<close>: on a present key \<^verbatim>\<open>SymTable_replace\<close> returns the
  prior value and overwrites the value field of the node that carries the key, and
  nothing else, so that \<^verbatim>\<open>SymTable_get\<close> thereafter returns the new value while the keys
  of all chains, every other binding, the length, the capacity and the prime index
  are unchanged; on an absent key it returns \<^verbatim>\<open>NULL\<close> and leaves the whole table
  unchanged. With \<^verbatim>\<open>NULL\<close> as the new value the call fails its assertion.
\<close>

theorem replace_present_absent:
  assumes "SymTable_inv cs t"
  shows "(val = NULL \<longrightarrow> SymTable_replace cs t key val = Inl AssertionFailed)
     \<and> (val \<noteq> NULL \<and> SymTable_contains cs t key = 1 \<longrightarrow>
          (\<exists>t'. SymTable_replace cs t key val = Inr (SymTable_get cs t key, t')
             \<and> SymTable_get cs t' key = val
             \<and> buckets t' = map (map (overwrite_value key val)) (buckets t)
             \<and> map (map pcKey) (buckets t') = map (map pcKey) (buckets t)
             \<and> (\<forall>k. k \<noteq> key \<longrightarrow> SymTable_get cs t' k = SymTable_get cs t k)
             \<and> (\<forall>k. SymTable_contains cs t' k = SymTable_contains cs t k)
             \<and> SymTable_getLength t' = SymTable_getLength t
             \<and> bucketCount t' = bucketCount t
             \<and> currentPrimeIndex t' = currentPrimeIndex t
             \<and> SymTable_inv cs t'))
     \<and> (val \<noteq> NULL \<and> SymTable_contains cs t key \<noteq> 1 \<longrightarrow>
          SymTable_replace cs t key val = Inr (NULL, t))"
proof (intro conjI impI)
  assume "val = NULL"
  then show "SymTable_replace cs t key val = Inl AssertionFailed"
    by (simp add: SymTable_replace_def)
next
  assume a: "val \<noteq> NULL \<and> SymTable_contains cs t key \<noteq> 1"
  then have "key \<notin> table_keys t"
    by (simp add: contains_inv [OF assms] split: if_splits)
  then show "SymTable_replace cs t key val = Inr (NULL, t)"
    using a by (simp add: replace_closed [OF assms])
next
  assume a: "val \<noteq> NULL \<and> SymTable_contains cs t key = 1"
  then have v: "val \<noteq> NULL" and k: "key \<in> table_keys t"
    by (simp_all add: contains_inv [OF assms] split: if_splits)
  define t' where "t' = t\<lparr>buckets := map (map (overwrite_value key val)) (buckets t)\<rparr>"
  have r: "SymTable_replace cs t key val = Inr (SymTable_get cs t key, t')"
    unfolding t'_def using k by (simp only: replace_closed [OF assms v] if_True)
  have i': "SymTable_inv cs t'"
    unfolding t'_def using assms by (rule replaced_inv)
  have l: "table_lookup t' = (table_lookup t)(key \<mapsto> val)"
    unfolding t'_def using k by (rule replaced_lookup)
  have ks: "table_keys t' = table_keys t"
    using arg_cong [OF l, of dom] k by (auto simp add: table_lookup_dom)
  have 1: "SymTable_get cs t' key = val"
    by (simp add: get_inv [OF i'] l)
  have 2: "buckets t' = map (map (overwrite_value key val)) (buckets t)"
    by (simp add: t'_def)
  have 3: "map (map pcKey) (buckets t') = map (map pcKey) (buckets t)"
    by (simp add: 2 comp_def)
  have 4: "\<forall>k. k \<noteq> key \<longrightarrow> SymTable_get cs t' k = SymTable_get cs t k"
    by (simp add: get_inv [OF i'] get_inv [OF assms] l)
  have 5: "\<forall>k. SymTable_contains cs t' k = SymTable_contains cs t k"
    by (simp add: contains_inv [OF i'] contains_inv [OF assms] ks)
  have 6: "SymTable_getLength t' = SymTable_getLength t" "bucketCount t' = bucketCount t"
    "currentPrimeIndex t' = currentPrimeIndex t"
    by (simp_all add: t'_def SymTable_getLength_def)
  show "\<exists>t'. SymTable_replace cs t key val = Inr (SymTable_get cs t key, t')
             \<and> SymTable_get cs t' key = val
             \<and> buckets t' = map (map (overwrite_value key val)) (buckets t)
             \<and> map (map pcKey) (buckets t') = map (map pcKey) (buckets t)
             \<and> (\<forall>k. k \<noteq> key \<longrightarrow> SymTable_get cs t' k = SymTable_get cs t k)
             \<and> (\<forall>k. SymTable_contains cs t' k = SymTable_contains cs t k)
             \<and> SymTable_getLength t' = SymTable_getLength t
             \<and> bucketCount t' = bucketCount t
             \<and> currentPrimeIndex t' = currentPrimeIndex t
             \<and> SymTable_inv cs t'"
    using r 1 2 3 4 5 6 i' by (intro exI [of _ t'] conjI)
qed

theorem replace_present_absent_witness:
  "SymTable_inv False (sample_table 2)
   \<and> SymTable_contains False (sample_table 2) (sample_key 0) = 1
   \<and> (\<exists>t'. SymTable_replace False (sample_table 2) (sample_key 0) 7 = Inr (1, t')
          \<and> SymTable_get False t' (sample_key 0) = 7
          \<and> SymTable_get False t' (sample_key 1) = 2
          \<and> SymTable_getLength t' = 2)
   \<and> SymTable_contains False (sample_table 2) (sample_key 5) = 0
   \<and> SymTable_replace False (sample_table 2) (sample_key 5) 7 = Inr (NULL, sample_table 2)
   \<and> SymTable_replace False (sample_table 2) (sample_key 0) NULL = Inl AssertionFailed"
proof -
  have p: "SymTable_inv False (sample_table 2)" "nodeQuantity (sample_table 2) = 2"
    "table_keys (sample_table 2) = sample_key ` {..<2}"
    "table_lookup (sample_table 2) (sample_key 0) = Some 1"
    "table_lookup (sample_table 2) (sample_key 1) = Some 2"
    using sample_table_props [of 2] by simp_all
  have g: "SymTable_get False (sample_table 2) (sample_key 0) = 1"
    using p(4) by (simp add: get_inv [OF p(1)])
  have g1: "SymTable_get False (sample_table 2) (sample_key 1) = 2"
    using p(5) by (simp add: get_inv [OF p(1)])
  have c: "SymTable_contains False (sample_table 2) (sample_key 0) = 1"
    using p(3) by (simp add: contains_inv [OF p(1)])
  have c5: "SymTable_contains False (sample_table 2) (sample_key 5) = 0"
    using p(3) by (auto simp add: contains_inv [OF p(1)])
  have l: "SymTable_getLength (sample_table 2) = 2"
    by (simp add: SymTable_getLength_def p(2))
  from replace_present_absent [OF p(1), of 7 "sample_key 0"] c g
  obtain t' where t': "SymTable_replace False (sample_table 2) (sample_key 0) 7 = Inr (1, t')"
    "SymTable_get False t' (sample_key 0) = 7"
    "\<forall>k. k \<noteq> sample_key 0 \<longrightarrow> SymTable_get False t' k = SymTable_get False (sample_table 2) k"
    "SymTable_getLength t' = SymTable_getLength (sample_table 2)"
    by auto
  from t'(3) g1 have "SymTable_get False t' (sample_key 1) = 2" by simp
  with t'(1,2,4) l have e: "\<exists>t'. SymTable_replace False (sample_table 2) (sample_key 0) 7 = Inr (1, t')
          \<and> SymTable_get False t' (sample_key 0) = 7
          \<and> SymTable_get False t' (sample_key 1) = 2
          \<and> SymTable_getLength t' = 2"
    by auto
  from replace_present_absent [OF p(1), of 7 "sample_key 5"] c5
  have a: "SymTable_replace False (sample_table 2) (sample_key 5) 7 = Inr (NULL, sample_table 2)"
    by simp
  from replace_present_absent [OF p(1), of NULL "sample_key 0"]
  have n: "SymTable_replace False (sample_table 2) (sample_key 0) NULL = Inl AssertionFailed"
    by simp
  from p(1) c e c5 a n show ?thesis by (intro conjI)
qed

subsection \<open>C8: map\<close>




subsection \<open>C9: the hash function\<close>

text \<open>
  Claim C9 says that the hash equals the reference fold over the byte values of the
  key, for every key. The code adds \<^verbatim>\<open>(unsigned int)(*pcKey)\<close>: where \<^verbatim>\<open>char\<close> is signed, a
  byte from \<open>0x80\<close> on is sign-extended first. For the one-byte key \<open>0xFF\<close> the
  reference fold gives 255 and bucket 255 of 509; the code with a signed \<^verbatim>\<open>char\<close> gives
  4294967295 and bucket 354.
\<close>

theorem hash_signed_char_counterexample:
  "hash_reference [CHR 0xFF] = 255
   \<and> uint (hash_loop True [CHR 0xFF] 0) = 4294967295
   \<and> nat (hash_reference [CHR 0xFF]) mod 509 = 255
   \<and> symtablehash_hashFunction True [CHR 0xFF] 509 = 354"
proof -
  have f: "hash_char_fold True [CHR 0xFF] = 4294967295"
    by (simp add: hash_char_fold_def char_value_def byte_value_def)
  have "hash_reference [CHR 0xFF] = 255"
    by (simp add: hash_reference_def byte_value_def)
  moreover have "uint (hash_loop True [CHR 0xFF] 0) = 4294967295"
    by (simp only: hash_loop_char_fold f)
  moreover have "symtablehash_hashFunction True [CHR 0xFF] 509 = 354"
    by (simp add: hash_eq_char_fold f)
  ultimately show ?thesis by simp
qed

text \<open>
  Claim C9, amended. The hash function is a total function of the key and of the
  signedness of \<^verbatim>\<open>char\<close>. Its accumulator is a 32-bit unsigned value that equals the
  fold which starts at 0 and replaces the accumulator by
  \<open>(accumulator << 5) + char_value\<close> modulo \<open>2 ^ 32\<close>, where the value of a byte read
  as \<^verbatim>\<open>char\<close> is its byte value, less 256 for a byte from \<open>0x80\<close> on when \<^verbatim>\<open>char\<close> is
  signed. Where \<^verbatim>\<open>char\<close> is unsigned, or every byte of the key is below \<open>0x80\<close>, this
  is the reference fold over the byte values. The empty key hashes to 0. The bucket
  index that put (after its resizing step), replace, contains, get and remove walk is
  the hash modulo the current capacity.
\<close>

theorem hash_function_reference:
  "uint (hash_loop cs key 0) = hash_char_fold cs key
   \<and> 0 \<le> hash_char_fold cs key \<and> hash_char_fold cs key < 2 ^ 32
   \<and> symtablehash_hashFunction cs key b = nat (hash_char_fold cs key) mod b
   \<and> ((\<not> cs \<or> (\<forall>c \<in> set key. byte_value c < 128)) \<longrightarrow>
         hash_char_fold cs key = hash_reference key
         \<and> symtablehash_hashFunction cs key b = nat (hash_reference key) mod b)
   \<and> hash_reference [] = 0
   \<and> symtablehash_hashFunction cs [] b = 0
   \<and> SymTable_get cs t key =
         get_walk key (buckets t ! (nat (hash_char_fold cs key) mod bucketCount t))
   \<and> SymTable_contains cs t key =
         contains_walk key (buckets t ! (nat (hash_char_fold cs key) mod bucketCount t))
   \<and> SymTable_remove cs t key =
         (let index = nat (hash_char_fold cs key) mod bucketCount t in
          case remove_walk key (buckets t ! index) of
            None \<Rightarrow> (NULL, t)
          | Some (oldValue, chain) \<Rightarrow>
              (oldValue, t\<lparr>buckets := (buckets t)[index := chain],
                            nodeQuantity := nodeQuantity t - 1\<rparr>))
   \<and> SymTable_replace cs t key val =
         (if val = NULL then Inl AssertionFailed
          else
            let index = nat (hash_char_fold cs key) mod bucketCount t in
            case replace_walk key val (buckets t ! index) of
              None \<Rightarrow> Inr (NULL, t)
            | Some (oldValue, chain) \<Rightarrow> Inr (oldValue, t\<lparr>buckets := (buckets t)[index := chain]\<rparr>))
   \<and> SymTable_put cs al t key val =
         (let t' = put_resize cs al t;
              index = nat (hash_char_fold cs key) mod bucketCount t'
          in if put_duplicate key (buckets t' ! index) then (0, t')
             else if \<not> malloc_psNewNode al then (0, t')
             else if \<not> malloc_pcKey al then (0, t')
             else (1, t'\<lparr>buckets := (buckets t')[index := \<lparr>pcKey = key, pvValue = val\<rparr> # buckets t' ! index],
                          nodeQuantity := nodeQuantity t' + 1\<rparr>))"
proof -
  note r = hash_loop_char_fold [of cs key]
  have lo: "0 \<le> hash_char_fold cs key"
    unfolding r [symmetric] by simp
  have "uint (hash_loop cs key 0) < 2 ^ LENGTH(32)"
    by (rule uint_lt2p)
  then have hi: "hash_char_fold cs key < 2 ^ 32"
    unfolding r by simp
  note h = hash_eq_char_fold
  have u: "(\<not> cs \<or> (\<forall>c \<in> set key. byte_value c < 128)) \<longrightarrow>
         hash_char_fold cs key = hash_reference key
         \<and> symtablehash_hashFunction cs key b = nat (hash_reference key) mod b"
  proof
    assume "\<not> cs \<or> (\<forall>c \<in> set key. byte_value c < 128)"
    then have "hash_char_fold cs key = hash_reference key"
      unfolding hash_char_fold_def hash_reference_def by (rule char_fold_reference)
    then show "hash_char_fold cs key = hash_reference key
         \<and> symtablehash_hashFunction cs key b = nat (hash_reference key) mod b"
      using h [of cs key b] by simp
  qed
  have e: "hash_reference [] = 0"
    by (simp add: hash_reference_def)
  have e': "symtablehash_hashFunction cs [] b = 0"
    by (simp add: symtablehash_hashFunction_def)
  have g: "SymTable_get cs t key =
         get_walk key (buckets t ! (nat (hash_char_fold cs key) mod bucketCount t))"
    by (simp add: SymTable_get_def h)
  have c: "SymTable_contains cs t key =
         contains_walk key (buckets t ! (nat (hash_char_fold cs key) mod bucketCount t))"
    by (simp add: SymTable_contains_def h)
  have rm: "SymTable_remove cs t key =
         (let index = nat (hash_char_fold cs key) mod bucketCount t in
          case remove_walk key (buckets t ! index) of
            None \<Rightarrow> (NULL, t)
          | Some (oldValue, chain) \<Rightarrow>
              (oldValue, t\<lparr>buckets := (buckets t)[index := chain],
                            nodeQuantity := nodeQuantity t - 1\<rparr>))"
    by (simp only: SymTable_remove_def h)
  have rp: "SymTable_replace cs t key val =
         (if val = NULL then Inl AssertionFailed
          else
            let index = nat (hash_char_fold cs key) mod bucketCount t in
            case replace_walk key val (buckets t ! index) of
              None \<Rightarrow> Inr (NULL, t)
            | Some (oldValue, chain) \<Rightarrow> Inr (oldValue, t\<lparr>buckets := (buckets t)[index := chain]\<rparr>))"
    by (simp only: SymTable_replace_def h)
  have pt: "SymTable_put cs al t key val =
         (let t' = put_resize cs al t;
              index = nat (hash_char_fold cs key) mod bucketCount t'
          in if put_duplicate key (buckets t' ! index) then (0, t')
             else if \<not> malloc_psNewNode al then (0, t')
             else if \<not> malloc_pcKey al then (0, t')
             else (1, t'\<lparr>buckets := (buckets t')[index := \<lparr>pcKey = key, pvValue = val\<rparr> # buckets t' ! index],
                          nodeQuantity := nodeQuantity t' + 1\<rparr>))"
    by (simp only: SymTable_put_def h)
  from r lo hi h [of cs key b] u e e' g c rm rp pt show ?thesis
    by (intro conjI)
qed

theorem hash_function_reference_witness:
  "hash_char_fold False [CHR 0xFF] = hash_reference [CHR 0xFF]
   \<and> symtablehash_hashFunction False [CHR 0xFF] 509 = 255
   \<and> hash_char_fold True ''ab'' = hash_reference ''ab''
   \<and> symtablehash_hashFunction True ''ab'' 509 = 148"
proof -
  have a: "hash_char_fold False [CHR 0xFF] = hash_reference [CHR 0xFF]
      \<and> symtablehash_hashFunction False [CHR 0xFF] 509 = nat (hash_reference [CHR 0xFF]) mod 509"
    using hash_function_reference [of False "[CHR 0xFF]" 509] by simp
  have b: "hash_char_fold True ''ab'' = hash_reference ''ab''
      \<and> symtablehash_hashFunction True ''ab'' 509 = nat (hash_reference ''ab'') mod 509"
    using hash_function_reference [of True "''ab''" 509] by (simp add: byte_value_def)
  have "nat (hash_reference [CHR 0xFF]) mod 509 = 255" "nat (hash_reference ''ab'') mod 509 = 148"
    by (simp_all add: hash_reference_def byte_value_def)
  with a b show ?thesis by simp
qed

subsection \<open>C10: the list variant visits the bindings in reverse insertion order\<close>

text \<open>
  Claim C10, for the first revision of \<^verbatim>\<open>symtablelist.c\<close> (\<^verbatim>\<open>SymTable_put\<close> at lines
  119 to 164, \<^verbatim>\<open>SymTable_map\<close> at lines 328 to 344). Starting from the table that
  \<^verbatim>\<open>SymTable_new\<close> returns, for every sequence of \<^verbatim>\<open>SymTable_put\<close> calls that all return 1:
  the keys of the calls are pairwise distinct, and \<^verbatim>\<open>SymTable_map\<close> on the resulting
  list applies the callback to the bindings in the reverse of the order of their
  insertion, the most recent first, each with the key and the value of its
  \<^verbatim>\<open>SymTable_put\<close> and with the context argument of the caller; the calls the callback
  receives are exactly the reversed list of the insertions. This holds for every context
  argument, \<^verbatim>\<open>NULL\<close> included, since this \<^verbatim>\<open>SymTable_map\<close> asserts nothing about it.
\<close>

theorem list_map_reverse_order:
  assumes "SymTable_new_list True = Some t0"
    and "\<forall>r \<in> set (fst (put_seq_list calls t0)). r = 1"
  shows "SymTable_map_list (snd (put_seq_list calls t0)) pfApply pvExtra s =
           fold (\<lambda>c. pfApply (fst (snd (snd c))) (snd (snd (snd c))) pvExtra) (rev calls) s
     \<and> SymTable_map_list (snd (put_seq_list calls t0)) record_call pvExtra [] =
           rev (map (\<lambda>c. (fst (snd (snd c)), snd (snd (snd c)), pvExtra)) calls)
     \<and> distinct (map (\<lambda>c. fst (snd (snd c))) calls)"
proof -
  from assms(1) have e: "psFirstNode t0 = []"
    by (auto simp add: SymTable_new_list_def split: if_splits)
  note p = put_seq_list_success [OF assms(2)]
  have f: "psFirstNode (snd (put_seq_list calls t0)) =
             rev (map (\<lambda>c. \<lparr>pcKey = fst (snd (snd c)), pvValue = snd (snd (snd c))\<rparr>) calls)"
    using p e by simp
  have d: "distinct (map (\<lambda>c. fst (snd (snd c))) calls)"
    using p by (rule conjunct2 [THEN conjunct1])
  have m: "SymTable_map_list (snd (put_seq_list calls t0)) g pvExtra z =
             fold (\<lambda>c. g (fst (snd (snd c))) (snd (snd (snd c))) pvExtra) (rev calls) z"
    for g :: "string \<Rightarrow> ptr \<Rightarrow> ptr \<Rightarrow> 'b \<Rightarrow> 'b" and z
    unfolding SymTable_map_list_def map_chain_fold f rev_map fold_map
    by (simp add: comp_def)
  have r: "SymTable_map_list (snd (put_seq_list calls t0)) record_call pvExtra [] =
             rev (map (\<lambda>c. (fst (snd (snd c)), snd (snd (snd c)), pvExtra)) calls)"
    by (simp add: SymTable_map_list_def map_chain_fold f fold_record_call rev_map comp_def)
  from m [of pfApply s] r d show ?thesis
    by (intro conjI)
qed

theorem list_map_reverse_order_witness:
  "SymTable_new_list True = Some \<lparr>psFirstNode = [], nodeQuantity_list = 0\<rparr>
   \<and> fst (put_seq_list [(True, True, ''a'', 1), (True, True, ''b'', 2), (True, True, ''c'', 3)]
            \<lparr>psFirstNode = [], nodeQuantity_list = 0\<rparr>) = [1, 1, 1]
   \<and> SymTable_map_list
        (snd (put_seq_list [(True, True, ''a'', 1), (True, True, ''b'', 2), (True, True, ''c'', 3)]
            \<lparr>psFirstNode = [], nodeQuantity_list = 0\<rparr>)) record_call NULL [] =
       [(''c'', 3, NULL), (''b'', 2, NULL), (''a'', 1, NULL)]"
proof -
  define t0 where "t0 = \<lparr>psFirstNode = [], nodeQuantity_list = 0\<rparr>"
  define calls :: "(bool \<times> bool \<times> string \<times> ptr) list"
    where "calls = [(True, True, ''a'', 1), (True, True, ''b'', 2), (True, True, ''c'', 3)]"
  have a: "SymTable_new_list True = Some t0"
    by (simp add: SymTable_new_list_def t0_def)
  have b: "fst (put_seq_list calls t0) = [1, 1, 1]"
    by (simp add: calls_def t0_def SymTable_put_list_def)
  then have c: "\<forall>r \<in> set (fst (put_seq_list calls t0)). r = 1"
    by simp
  have "SymTable_map_list (snd (put_seq_list calls t0)) record_call NULL [] =
          rev (map (\<lambda>c. (fst (snd (snd c)), snd (snd (snd c)), NULL)) calls)"
    by (rule list_map_reverse_order [OF a c, of record_call NULL "[]", THEN conjunct2, THEN conjunct1])
  then have d: "SymTable_map_list (snd (put_seq_list calls t0)) record_call NULL [] =
          [(''c'', 3, NULL), (''b'', 2, NULL), (''a'', 1, NULL)]"
    by (simp add: calls_def)
  from a b d show ?thesis
    unfolding t0_def calls_def by (intro conjI)
qed

end
